theory Spec2Isabelle
  imports Main "HOL-Library.Sublist"
begin

section \<open>Strings\<close>

text \<open>
  JavaScript strings are modelled as HOL strings, whose characters are the code points
  below 256. Case mapping is the ASCII one, which is what tag names and class tokens of an
  HTML document need; \<open>length\<close> counts characters.
\<close>

definition upperLetters :: string where
  "upperLetters = ''ABCDEFGHIJKLMNOPQRSTUVWXYZ''"

definition lowerLetters :: string where
  "lowerLetters = ''abcdefghijklmnopqrstuvwxyz''"

definition digitChars :: string where
  "digitChars = ''0123456789''"

definition lowerChar :: "char \<Rightarrow> char" where
  "lowerChar c = (case map_of (zip upperLetters lowerLetters) c of Some d \<Rightarrow> d | None \<Rightarrow> c)"

definition upperChar :: "char \<Rightarrow> char" where
  "upperChar c = (case map_of (zip lowerLetters upperLetters) c of Some d \<Rightarrow> d | None \<Rightarrow> c)"

definition toLowerCase :: "string \<Rightarrow> string" where
  "toLowerCase s = map lowerChar s"

text \<open>\<open>s.startsWith(p)\<close>.\<close>

definition startsWith :: "string \<Rightarrow> string \<Rightarrow> bool" where
  "startsWith s p = (take (length p) s = p)"

text \<open>\<open>s.split(d)\<close> for a one-character separator: \<open>''''\<close> splits into one empty piece.\<close>

fun splitOn :: "char \<Rightarrow> string \<Rightarrow> string list" where
  "splitOn d [] = [[]]"
| "splitOn d (c # cs) =
     (if c = d then [] # splitOn d cs
      else (case splitOn d cs of [] \<Rightarrow> [[c]] | w # ws \<Rightarrow> (c # w) # ws))"

text \<open>\<open>xs.join(sep)\<close>.\<close>

fun joinWith :: "string \<Rightarrow> string list \<Rightarrow> string" where
  "joinWith sep [] = []"
| "joinWith sep [x] = x"
| "joinWith sep (x # y # ys) = x @ sep @ joinWith sep (y # ys)"

text \<open>The decimal numeral of a natural number, as a template literal prints an index or a
  timestamp.\<close>

fun digitOf :: "nat \<Rightarrow> char" where
  "digitOf n = (digitChars ! (n mod 10))"

fun showNat :: "nat \<Rightarrow> string" where
  "showNat n = (if n < 10 then [digitOf n] else showNat (n div 10) @ [digitOf n])"

declare showNat.simps [simp del]

text \<open>The number that a string of decimal digits denotes.\<close>

definition digitValue :: "char \<Rightarrow> int" where
  "digitValue c = (case map_of (zip digitChars [0, 1, 2, 3, 4, 5, 6, 7, 8, 9]) c of
                     Some n \<Rightarrow> n | None \<Rightarrow> 0)"

definition numberOf :: "string \<Rightarrow> int" where
  "numberOf s = foldl (\<lambda>n c. 10 * n + digitValue c) 0 s"

section \<open>The document tree\<close>

text \<open>
  An element carries what the engine reads from it: \<open>tagName\<close> (upper case for the elements
  of an HTML document), the tokens of \<open>classList\<close>, its attributes, and three properties the
  renderer computes: \<open>innerText\<close> (empty where it is unavailable), and the resolved \<open>src\<close> and
  \<open>href\<close>. A node is an element with its child nodes, or a text node.
\<close>

record element =
  tagName :: string
  classList :: "string list"
  attributes :: "(string \<times> string) list"
  innerText :: string
  src :: string
  href :: string

datatype node = Element element "node list" | Text string

text \<open>
  An element reference is the path of child indices that leads to it from the root element
  of the document; two references are the same object exactly when the paths are equal.
  A path that leads nowhere plays the part of \<open>null\<close>.
\<close>

type_synonym path = "nat list"

fun nodeAt :: "node \<Rightarrow> path \<Rightarrow> node option" where
  "nodeAt n [] = Some n"
| "nodeAt (Text s) (i # p) = None"
| "nodeAt (Element e ks) (i # p) = (if i < length ks then nodeAt (ks ! i) p else None)"

definition elementAt :: "node \<Rightarrow> path \<Rightarrow> element option" where
  "elementAt doc p = (case nodeAt doc p of Some (Element e ks) \<Rightarrow> Some e | _ \<Rightarrow> None)"

fun isElement :: "node \<Rightarrow> bool" where
  "isElement (Element e ks) = True"
| "isElement (Text s) = False"

text \<open>\<open>el.children\<close>: the child nodes that are elements, in order, each with its index.\<close>

fun childElements :: "node \<Rightarrow> (nat \<times> node) list" where
  "childElements (Text s) = []"
| "childElements (Element e ks) = filter (\<lambda>(i, k). isElement k) (zip [0..<length ks] ks)"

definition children :: "node \<Rightarrow> path \<Rightarrow> path list" where
  "children doc p =
     (case nodeAt doc p of None \<Rightarrow> [] | Some n \<Rightarrow> map (\<lambda>(i, k). p @ [i]) (childElements n))"

text \<open>\<open>el.parentElement\<close>: the root element has none.\<close>

definition parentElement :: "path \<Rightarrow> path option" where
  "parentElement p = (if p = [] then None else Some (butlast p))"

text \<open>\<open>a.contains(b)\<close>: \<open>b\<close> is \<open>a\<close> or lies below it.\<close>

definition contains :: "path \<Rightarrow> path \<Rightarrow> bool" where
  "contains a b = (take (length a) b = a)"

section \<open>Selectors\<close>

text \<open>
  The engine builds every selector as a string and hands it to the selector engine of the
  document. The strings it builds are compound selectors: an optional type selector
  followed by class selectors (\<open>li\<close>, \<open>li.card\<close>, \<open>.price\<close>). The model reads exactly these.
  Any other text is rejected: the selector engine raises \<open>SyntaxError\<close> for text that is
  not a selector, and selectors with combinators, lists, attribute tests, pseudo-classes,
  escapes or characters beyond ASCII are outside what is modelled. The document is taken
  to be an HTML document in standards mode: type selectors match up to ASCII case, class
  selectors match exactly.
\<close>

datatype error = SyntaxError | TransformFailed

definition isNameChar :: "char \<Rightarrow> bool" where
  "isNameChar c = (c \<in> set (upperLetters @ lowerLetters @ digitChars @ ''-_''))"

definition isDigit :: "char \<Rightarrow> bool" where
  "isDigit c = (c \<in> set digitChars)"

text \<open>An identifier: name characters, not starting with a digit, nor with a hyphen that a
  digit follows or that stands alone.\<close>

definition isIdent :: "string \<Rightarrow> bool" where
  "isIdent s =
     (case s of
        [] \<Rightarrow> False
      | c # cs \<Rightarrow>
          list_all isNameChar s \<and> \<not> isDigit c \<and>
          (if c = CHR ''-'' then (case cs of [] \<Rightarrow> False | d # ds \<Rightarrow> \<not> isDigit d) else True))"

record compound =
  typeSel :: "string option"
  classSels :: "string list"

definition parseCompound :: "string \<Rightarrow> compound option" where
  "parseCompound s =
     (case splitOn (CHR ''.'') s of
        [] \<Rightarrow> None
      | t # cs \<Rightarrow>
          if (t = [] \<or> isIdent t) \<and> list_all isIdent cs \<and> (t \<noteq> [] \<or> cs \<noteq> [])
          then Some \<lparr>typeSel = (if t = [] then None else Some t), classSels = cs\<rparr>
          else None)"

text \<open>
  A type selector matches an HTML element when it is the element's name up to ASCII case;
  a class selector matches when the token is in the element's class list.
\<close>

definition matchesTag :: "string \<Rightarrow> element \<Rightarrow> bool" where
  "matchesTag t e = (toLowerCase t = toLowerCase (tagName e))"

definition matchesCompound :: "compound \<Rightarrow> element \<Rightarrow> bool" where
  "matchesCompound cs e =
     ((case typeSel cs of None \<Rightarrow> True | Some t \<Rightarrow> matchesTag t e) \<and>
      list_all (\<lambda>c. c \<in> set (classList e)) (classSels cs))"

fun matchesNode :: "compound \<Rightarrow> node \<Rightarrow> bool" where
  "matchesNode cs (Element e ks) = matchesCompound cs e"
| "matchesNode cs (Text s) = False"

definition matchesAt :: "node \<Rightarrow> compound \<Rightarrow> path \<Rightarrow> bool" where
  "matchesAt doc cs c =
     (case elementAt doc c of Some e \<Rightarrow> matchesCompound cs e | None \<Rightarrow> False)"

text \<open>The element descendants of a node in document order, each with its path from the
  node.\<close>

fun descendants :: "node \<Rightarrow> (path \<times> node) list"
  and descendantsFrom :: "nat \<Rightarrow> node list \<Rightarrow> (path \<times> node) list" where
  "descendants (Text s) = []"
| "descendants (Element e ks) = descendantsFrom 0 ks"
| "descendantsFrom i [] = []"
| "descendantsFrom i (k # ks) =
     (if isElement k then [([i], k)] else []) @
     map (\<lambda>(p, n). (i # p, n)) (descendants k) @
     descendantsFrom (Suc i) ks"

text \<open>\<open>root.querySelectorAll(':scope > ' + sel)\<close>: the matching element children.\<close>

definition queryScopeChildren :: "node \<Rightarrow> string \<Rightarrow> error + (nat \<times> node) list" where
  "queryScopeChildren root sel =
     (case parseCompound sel of
        None \<Rightarrow> Inl SyntaxError
      | Some cs \<Rightarrow> Inr (filter (\<lambda>(i, k). matchesNode cs k) (childElements root)))"

text \<open>\<open>root.querySelectorAll(sel)\<close> and \<open>root.querySelector(sel)\<close>.\<close>

definition querySelectorAll :: "node \<Rightarrow> string \<Rightarrow> error + (path \<times> node) list" where
  "querySelectorAll root sel =
     (case parseCompound sel of
        None \<Rightarrow> Inl SyntaxError
      | Some cs \<Rightarrow> Inr (filter (\<lambda>(p, k). matchesNode cs k) (descendants root)))"

definition querySelector :: "node \<Rightarrow> string \<Rightarrow> error + path option" where
  "querySelector root sel =
     (case querySelectorAll root sel of
        Inl err \<Rightarrow> Inl err
      | Inr [] \<Rightarrow> Inr None
      | Inr ((p, k) # ms) \<Rightarrow> Inr (Some p))"

text \<open>
  The extractor takes its selectors from the caller and hands them to the selector engine
  as they are, so for the extractor the engine is a parameter: three functions of a tree
  and a selector text that raise or answer with the elements found, each given by its
  path from the root of the query. They stand for \<open>root.querySelectorAll(':scope > ' + sel)\<close>,
  \<open>root.querySelectorAll(sel)\<close> and \<open>root.querySelector(sel)\<close>. What is proved of the
  extractor for every such engine holds for the engine of the browser, whatever selectors
  it reads. The engine for compound selectors defined above is one instance.
\<close>

record selectorEngine =
  scopedChildren :: "node \<Rightarrow> string \<Rightarrow> error + path list"
  allMatches :: "node \<Rightarrow> string \<Rightarrow> error + path list"
  firstMatch :: "node \<Rightarrow> string \<Rightarrow> error + path option"

definition compoundEngine :: selectorEngine where
  "compoundEngine =
     \<lparr>scopedChildren = (\<lambda>root sel.
          case queryScopeChildren root sel of
            Inl err \<Rightarrow> Inl err
          | Inr ms \<Rightarrow> Inr (map (\<lambda>(i, k). [i]) ms)),
      allMatches = (\<lambda>root sel.
          case querySelectorAll root sel of
            Inl err \<Rightarrow> Inl err
          | Inr ms \<Rightarrow> Inr (map fst ms)),
      firstMatch = querySelector\<rparr>"

text \<open>The element at a path below a root; a path that leads to no element gives none.\<close>

definition elementNodeAt :: "node \<Rightarrow> path \<Rightarrow> node option" where
  "elementNodeAt root p =
     (case nodeAt root p of Some (Element e ks) \<Rightarrow> Some (Element e ks) | _ \<Rightarrow> None)"

section \<open>Identifying the repeated list\<close>

record ListContext =
  container :: path
  itemSelector :: string
  foundItem :: path

text \<open>The comparator of the sort: a class with a hyphen or an underscore scores ten more
  than its length, and the higher score sorts first.\<close>

definition classScore :: "string \<Rightarrow> nat" where
  "classScore a = (if CHR ''-'' \<in> set a \<or> CHR ''_'' \<in> set a then 10 else 0) + length a"

definition compareClasses :: "string \<Rightarrow> string \<Rightarrow> int" where
  "compareClasses a b = int (classScore b) - int (classScore a)"

text \<open>\<open>Array.prototype.sort\<close> with a comparator: a stable sort.\<close>

fun insertBy :: "('a \<Rightarrow> 'a \<Rightarrow> int) \<Rightarrow> 'a \<Rightarrow> 'a list \<Rightarrow> 'a list" where
  "insertBy cmp x [] = [x]"
| "insertBy cmp x (y # ys) = (if cmp x y \<le> 0 then x # y # ys else y # insertBy cmp x ys)"

definition sortBy :: "('a \<Rightarrow> 'a \<Rightarrow> int) \<Rightarrow> 'a list \<Rightarrow> 'a list" where
  "sortBy cmp xs = foldr (insertBy cmp) xs []"

definition tagNameAt :: "node \<Rightarrow> path \<Rightarrow> string" where
  "tagNameAt doc p = (case elementAt doc p of None \<Rightarrow> [] | Some e \<Rightarrow> tagName e)"

definition classListAt :: "node \<Rightarrow> path \<Rightarrow> string list" where
  "classListAt doc p = (case elementAt doc p of None \<Rightarrow> [] | Some e \<Rightarrow> classList e)"

text \<open>The other children of the parent that have the tag of \<open>current\<close>.\<close>

definition sameTagSiblings :: "node \<Rightarrow> path \<Rightarrow> path \<Rightarrow> path list" where
  "sameTagSiblings doc parent current =
     filter (\<lambda>child. child \<noteq> current \<and> tagNameAt doc child = tagNameAt doc current)
       (children doc parent)"

text \<open>The classes of \<open>current\<close> that every sibling carries.\<close>

definition commonClasses :: "node \<Rightarrow> path \<Rightarrow> path list \<Rightarrow> string list" where
  "commonClasses doc current siblings =
     filter (\<lambda>cls. list_all (\<lambda>sib. cls \<in> set (classListAt doc sib)) siblings)
       (classListAt doc current)"

text \<open>The selector built for the candidate item: its tag in lower case, and the first of
  the sorted common classes when there is one.\<close>

definition buildSelector :: "node \<Rightarrow> path \<Rightarrow> path list \<Rightarrow> string" where
  "buildSelector doc current siblings =
     (let selector = toLowerCase (tagNameAt doc current);
          currentClasses = classListAt doc current
      in if currentClasses \<noteq> [] then
           (case sortBy compareClasses (commonClasses doc current siblings) of
              [] \<Rightarrow> selector
            | best # rest \<Rightarrow> selector @ ''.'' @ best)
         else selector)"

text \<open>\<open>parent.querySelectorAll(':scope > ' + selector)\<close> on a reference.\<close>

definition scopeMatches :: "node \<Rightarrow> path \<Rightarrow> string \<Rightarrow> error + path list" where
  "scopeMatches doc parent sel =
     (case nodeAt doc parent of
        None \<Rightarrow> Inr []
      | Some n \<Rightarrow>
          (case queryScopeChildren n sel of
             Inl err \<Rightarrow> Inl err
           | Inr ms \<Rightarrow> Inr (map (\<lambda>(i, k). parent @ [i]) ms)))"

text \<open>The walk towards the root, at most eight levels.\<close>

fun identifyFrom :: "node \<Rightarrow> nat \<Rightarrow> path \<Rightarrow> error + ListContext option" where
  "identifyFrom doc 0 current = Inr None"
| "identifyFrom doc (Suc n) current =
     (case elementAt doc current of
        None \<Rightarrow> Inr None
      | Some e \<Rightarrow>
          if tagName e = ''BODY'' \<or> tagName e = ''HTML'' then Inr None
          else
            (case parentElement current of
               None \<Rightarrow> Inr None
             | Some parent \<Rightarrow>
                 (let siblings = sameTagSiblings doc parent current in
                  if siblings \<noteq> [] then
                    (let selector = buildSelector doc current siblings in
                     case scopeMatches doc parent selector of
                       Inl err \<Rightarrow> Inl err
                     | Inr matches \<Rightarrow>
                         if length matches \<ge> 1
                         then Inr (Some \<lparr>container = parent, itemSelector = selector,
                                        foundItem = current\<rparr>)
                         else identifyFrom doc n parent)
                  else identifyFrom doc n parent)))"

definition identifyRepeatedList :: "node \<Rightarrow> path \<Rightarrow> error + ListContext option" where
  "identifyRepeatedList doc target = identifyFrom doc 8 target"

section \<open>Text of an element\<close>

text \<open>The white space of the regular expression class \<open>\s\<close> and of \<open>trim\<close>, among the
  characters of the model.\<close>

definition isSpace :: "char \<Rightarrow> bool" where
  "isSpace c = (c \<in> set [CHR 0x09, CHR 0x0A, CHR 0x0B, CHR 0x0C, CHR 0x0D, CHR 0x20, CHR 0xA0])"

text \<open>The classes \<open>[\r\n]\<close> and \<open>[\r\n\t]\<close>.\<close>

definition isLineBreak :: "char \<Rightarrow> bool" where
  "isLineBreak c = (c = CHR 0x0D \<or> c = CHR 0x0A)"

definition isLineBreakOrTab :: "char \<Rightarrow> bool" where
  "isLineBreakOrTab c = (c = CHR 0x0D \<or> c = CHR 0x0A \<or> c = CHR 0x09)"

text \<open>\<open>s.replace(/[...]+/g, ' ')\<close>: every maximal run of characters of the class becomes
  one space.\<close>

function replaceRuns :: "(char \<Rightarrow> bool) \<Rightarrow> string \<Rightarrow> string" where
  "replaceRuns P [] = []"
| "replaceRuns P (c # cs) =
     (if P c then CHR '' '' # replaceRuns P (dropWhile P cs) else c # replaceRuns P cs)"
  by pat_completeness auto
termination
  by (relation "measure (\<lambda>(P, s). length s)")
     (auto simp: length_dropWhile_le less_Suc_eq_le)

definition trim :: "string \<Rightarrow> string" where
  "trim s = rev (dropWhile isSpace (rev (dropWhile isSpace s)))"

definition blockTags :: "string list" where
  "blockTags = [''div'', ''p'', ''h1'', ''h2'', ''h3'', ''h4'', ''h5'', ''h6'', ''li'', ''br'',
     ''tr'', ''button'', ''section'', ''article'']"

text \<open>What the selector \<open>script, style, noscript, [hidden], [aria-hidden="true"]\<close> matches.\<close>

fun isJunk :: "node \<Rightarrow> bool" where
  "isJunk (Text s) = False"
| "isJunk (Element e ks) =
     (matchesTag ''script'' e \<or> matchesTag ''style'' e \<or> matchesTag ''noscript'' e \<or>
      map_of (attributes e) ''hidden'' \<noteq> None \<or>
      map_of (attributes e) ''aria-hidden'' = Some ''true'')"

text \<open>Removing every matching descendant of the clone; the clone itself stays.\<close>

fun removeJunk :: "node \<Rightarrow> node" where
  "removeJunk (Text s) = Text s"
| "removeJunk (Element e ks) = Element e (map removeJunk (filter (\<lambda>k. \<not> isJunk k) ks))"

text \<open>
  One round of the loop over the block tags, on one node of the clone: a descendant with
  the tag gets a text node of one space before and after it, and a \<open>br\<close> is replaced by
  one. The result is what stands in the place of the node.
\<close>

fun spaceAround :: "string \<Rightarrow> node \<Rightarrow> node list" where
  "spaceAround tag (Text s) = [Text s]"
| "spaceAround tag (Element e ks) =
     (if matchesTag tag e then
        (if tag = ''br'' then [Text '' '']
         else [Text '' '', Element e (concat (map (spaceAround tag) ks)), Text '' ''])
      else [Element e (concat (map (spaceAround tag) ks))])"

definition spaceBlocks :: "node list \<Rightarrow> node list" where
  "spaceBlocks ks = foldl (\<lambda>ns tag. concat (map (spaceAround tag) ns)) ks blockTags"

fun textContent :: "node \<Rightarrow> string" where
  "textContent (Text s) = s"
| "textContent (Element e ks) = concat (map textContent ks)"

text \<open>The rendered text when there is one, else the text of a stripped and spaced clone.
  Only elements are passed.\<close>

fun getTextFromElement :: "node \<Rightarrow> string" where
  "getTextFromElement (Text s) = []"
| "getTextFromElement (Element e ks) =
     (if innerText e \<noteq> [] then
        trim (replaceRuns isSpace (replaceRuns isLineBreak (innerText e)))
      else
        (case removeJunk (Element e ks) of
           Text s \<Rightarrow> []
         | Element e' ks' \<Rightarrow>
             (let text = concat (map textContent (spaceBlocks ks'))
              in trim (replaceRuns isSpace (replaceRuns isLineBreakOrTab text)))))"

section \<open>Extraction\<close>

datatype FieldType = TEXT | IMAGE | LINK

record ExtractField =
  fieldId :: string
  relativeSelector :: string
  fieldType :: FieldType

text \<open>
  A row is a plain object with string keys. It is modelled by its own properties, in the
  order in which \<open>Object.keys\<close> lists them: the keys that are array indices first, in
  ascending order, then the other keys in the order of their creation. The type of a row
  admits numbers too, but every operation of the engine stores strings. Every plain
  object inherits the members of \<open>Object.prototype\<close>: reading a key that the row does not
  own gives the inherited member of that name when there is one, else \<open>undefined\<close>.
\<close>

datatype jsval = Str string | Undefined | Inherited string

type_synonym ScrapedRow = "(string \<times> jsval) list"

definition objectPrototypeKeys :: "string list" where
  "objectPrototypeKeys =
     [''constructor'', ''__defineGetter__'', ''__defineSetter__'', ''hasOwnProperty'',
      ''__lookupGetter__'', ''__lookupSetter__'', ''isPrototypeOf'', ''propertyIsEnumerable'',
      ''toString'', ''valueOf'', ''__proto__'', ''toLocaleString'']"

text \<open>An array index: the canonical numeral of a number below \<open>2^32 - 1\<close>.\<close>

definition isArrayIndex :: "string \<Rightarrow> bool" where
  "isArrayIndex k =
     (k \<noteq> [] \<and> list_all isDigit k \<and> (k = ''0'' \<or> hd k \<noteq> CHR ''0'') \<and> numberOf k < 4294967295)"

text \<open>
  Defining an own property, as an object literal with a spread and a computed key does: the
  value of an own property is replaced where it stands, a new array index goes to its
  place among the array indices, any other new key goes last.
\<close>

definition defineProp :: "string \<Rightarrow> jsval \<Rightarrow> ScrapedRow \<Rightarrow> ScrapedRow" where
  "defineProp k v row =
     (if k \<in> set (map fst row) then
        map (\<lambda>(k', v'). if k' = k then (k, v) else (k', v')) row
      else if isArrayIndex k then
        takeWhile (\<lambda>(k', v'). isArrayIndex k' \<and> numberOf k' < numberOf k) row @
        (k, v) # dropWhile (\<lambda>(k', v'). isArrayIndex k' \<and> numberOf k' < numberOf k) row
      else row @ [(k, v)])"

text \<open>
  The assignment \<open>row[k] = v\<close> of a string. The key \<open>__proto__\<close> is an accessor of
  \<open>Object.prototype\<close>: unless the row owns a property of that name, the assignment runs
  the inherited setter, which ignores a value that is not an object, and the row is left
  as it was. Every other key becomes or stays an own property.
\<close>

definition setProp :: "string \<Rightarrow> string \<Rightarrow> ScrapedRow \<Rightarrow> ScrapedRow" where
  "setProp k v row =
     (if k = ''__proto__'' \<and> k \<notin> set (map fst row) then row else defineProp k (Str v) row)"

text \<open>Reading \<open>row[k]\<close>.\<close>

definition getProp :: "ScrapedRow \<Rightarrow> string \<Rightarrow> jsval" where
  "getProp row k =
     (case map_of row k of
        Some v \<Rightarrow> v
      | None \<Rightarrow> if k \<in> set objectPrototypeKeys then Inherited k else Undefined)"

text \<open>\<open>String(v)\<close>. An inherited member is a function, printed as the engine prints a native
  function (here as V8 does), or for \<open>__proto__\<close> the prototype object itself.\<close>

fun stringOf :: "jsval \<Rightarrow> string" where
  "stringOf (Str s) = s"
| "stringOf Undefined = ''undefined''"
| "stringOf (Inherited k) =
     (if k = ''__proto__'' then ''[object Object]''
      else ''function '' @ (if k = ''constructor'' then ''Object'' else k) @ ''() { [native code] }'')"

text \<open>\<open>el instanceof HTMLImageElement\<close> and \<open>el instanceof HTMLAnchorElement\<close>.\<close>

fun isImageElement :: "node \<Rightarrow> bool" where
  "isImageElement (Element e ks) = (tagName e = ''IMG'')"
| "isImageElement (Text s) = False"

fun isAnchorElement :: "node \<Rightarrow> bool" where
  "isAnchorElement (Element e ks) = (tagName e = ''A'')"
| "isAnchorElement (Text s) = False"

fun srcOf :: "node \<Rightarrow> string" where
  "srcOf (Element e ks) = src e"
| "srcOf (Text s) = []"

fun hrefOf :: "node \<Rightarrow> string" where
  "hrefOf (Element e ks) = href e"
| "hrefOf (Text s) = []"

text \<open>The element a field reads in one item: the item itself for the sentinel, else the
  first matching descendant.\<close>

definition fieldTarget :: "selectorEngine \<Rightarrow> node \<Rightarrow> ExtractField \<Rightarrow> error + node option" where
  "fieldTarget engine item field =
     (if relativeSelector field = ''_ROOT_'' then Inr (Some item)
      else
        (case firstMatch engine item (relativeSelector field) of
           Inl err \<Rightarrow> Inl err
         | Inr None \<Rightarrow> Inr None
         | Inr (Some p) \<Rightarrow> Inr (elementNodeAt item p)))"

definition cellValue :: "FieldType \<Rightarrow> node option \<Rightarrow> string" where
  "cellValue ty target =
     (case target of
        Some el \<Rightarrow>
          if ty = IMAGE \<and> isImageElement el then srcOf el
          else if ty = LINK \<and> isAnchorElement el then hrefOf el
          else getTextFromElement el
      | None \<Rightarrow> [])"

text \<open>The loop over the fields for one item.\<close>

fun extractRow ::
  "selectorEngine \<Rightarrow> node \<Rightarrow> ExtractField list \<Rightarrow> ScrapedRow \<Rightarrow> error + ScrapedRow" where
  "extractRow engine item [] row = Inr row"
| "extractRow engine item (field # rest) row =
     (case fieldTarget engine item field of
        Inl err \<Rightarrow> Inl err
      | Inr target \<Rightarrow>
          extractRow engine item rest
            (setProp (fieldId field) (cellValue (fieldType field) target) row))"

text \<open>The map over the items, with the index.\<close>

fun extractRows ::
  "selectorEngine \<Rightarrow> nat \<Rightarrow> node list \<Rightarrow> ExtractField list \<Rightarrow> error + ScrapedRow list" where
  "extractRows engine index [] fs = Inr []"
| "extractRows engine index (item # items) fs =
     (case extractRow engine item fs [(''id'', Str (''row-'' @ showNat index))] of
        Inl err \<Rightarrow> Inl err
      | Inr row \<Rightarrow>
          (case extractRows engine (Suc index) items fs of
             Inl err \<Rightarrow> Inl err
           | Inr rows \<Rightarrow> Inr (row # rows)))"

text \<open>The items: the matching children, or any matching descendant when no child
  matches.\<close>

definition listItems :: "selectorEngine \<Rightarrow> node \<Rightarrow> string \<Rightarrow> error + node list" where
  "listItems engine rootContainer sel =
     (case scopedChildren engine rootContainer sel of
        Inl err \<Rightarrow> Inl err
      | Inr direct \<Rightarrow>
          if direct = [] then
            (case allMatches engine rootContainer sel of
               Inl err \<Rightarrow> Inl err
             | Inr found \<Rightarrow> Inr (List.map_filter (elementNodeAt rootContainer) found))
          else Inr (List.map_filter (elementNodeAt rootContainer) direct))"

definition extractDataFromList ::
  "selectorEngine \<Rightarrow> node \<Rightarrow> string \<Rightarrow> ExtractField list \<Rightarrow> error + ScrapedRow list" where
  "extractDataFromList engine rootContainer sel fs =
     (case listItems engine rootContainer sel of
        Inl err \<Rightarrow> Inl err
      | Inr items \<Rightarrow> extractRows engine 0 items fs)"

section \<open>Extraction on a document with node identity\<close>

text \<open>
  \<open>getTextFromElement\<close> works on \<open>el.cloneNode(true)\<close> and changes the clone in place:
  \<open>j.remove()\<close>, \<open>e.replaceWith(' ')\<close>, \<open>e.after(' ')\<close> and \<open>e.before(' ')\<close> act on the
  element object they are called on, wherever it is attached. To say what a call leaves
  behind, the document is given here with the identity of its elements: every element
  carries a number, and a call on an element acts on the element with that number. Text
  nodes are never the target of a call and carry none.
\<close>

datatype dnode = DElement nat element "dnode list" | DText string

text \<open>The tree without the identities: what a selector or an attribute read sees.\<close>

fun erase :: "dnode \<Rightarrow> node" where
  "erase (DText s) = Text s"
| "erase (DElement i e ks) = Element e (map erase ks)"

fun hasTag :: "string \<Rightarrow> node \<Rightarrow> bool" where
  "hasTag tag (Element e ks) = matchesTag tag e"
| "hasTag tag (Text s) = False"

fun hasId :: "nat \<Rightarrow> dnode \<Rightarrow> bool" where
  "hasId j (DElement i e ks) = (i = j)"
| "hasId j (DText s) = False"

fun identity :: "dnode \<Rightarrow> nat" where
  "identity (DElement i e ks) = i"
| "identity (DText s) = 0"

fun childNodes :: "dnode \<Rightarrow> dnode list" where
  "childNodes (DElement i e ks) = ks"
| "childNodes (DText s) = []"

text \<open>The elements of a tree in document order, the root first.\<close>

fun elements :: "dnode \<Rightarrow> dnode list" where
  "elements (DText s) = []"
| "elements (DElement i e ks) = DElement i e ks # concat (map elements ks)"

definition elementIds :: "dnode \<Rightarrow> nat list" where
  "elementIds d = map identity (elements d)"

definition findElement :: "nat \<Rightarrow> dnode \<Rightarrow> dnode option" where
  "findElement j d = find (hasId j) (elements d)"

text \<open>\<open>root.querySelectorAll\<close> for a selector given by what it matches: the descendants
  that match, in document order, as a static list of their identities.\<close>

definition selectAll :: "(node \<Rightarrow> bool) \<Rightarrow> dnode \<Rightarrow> nat list" where
  "selectAll P root =
     map identity (filter (\<lambda>k. P (erase k)) (concat (map elements (childNodes root))))"

text \<open>\<open>cloneNode(true)\<close>: a copy of the subtree whose elements are new objects, numbered
  from the next free number in document order.\<close>

fun cloneNode :: "nat \<Rightarrow> dnode \<Rightarrow> dnode"
  and cloneNodes :: "nat \<Rightarrow> dnode list \<Rightarrow> dnode list" where
  "cloneNode n (DText s) = DText s"
| "cloneNode n (DElement i e ks) = DElement n e (cloneNodes (Suc n) ks)"
| "cloneNodes n [] = []"
| "cloneNodes n (k # ks) = cloneNode n k # cloneNodes (n + length (elements k)) ks"

text \<open>
  \<open>j.remove()\<close>, the pair \<open>e.after(' ')\<close>, \<open>e.before(' ')\<close>, and \<open>e.replaceWith(' ')\<close>, on the
  element with the number \<open>j\<close> in a tree. An element that is not in the tree has no parent
  there, and the tree stays as it is.
\<close>

fun removeElement :: "nat \<Rightarrow> dnode \<Rightarrow> dnode" where
  "removeElement j (DText s) = DText s"
| "removeElement j (DElement i e ks) =
     DElement i e (map (removeElement j) (filter (\<lambda>k. \<not> hasId j k) ks))"

fun surroundElement :: "nat \<Rightarrow> dnode \<Rightarrow> dnode" where
  "surroundElement j (DText s) = DText s"
| "surroundElement j (DElement i e ks) =
     DElement i e
       (concat (map (\<lambda>k. if hasId j k then [DText '' '', surroundElement j k, DText '' '']
                          else [surroundElement j k]) ks))"

fun replaceElement :: "nat \<Rightarrow> dnode \<Rightarrow> dnode" where
  "replaceElement j (DText s) = DText s"
| "replaceElement j (DElement i e ks) =
     DElement i e (map (\<lambda>k. if hasId j k then DText '' '' else replaceElement j k) ks)"

text \<open>The state: the document, and the next number that a new element gets.\<close>

record dom =
  document :: dnode
  nextId :: nat

text \<open>
  \<open>getTextFromElement\<close> on the element with the number \<open>el\<close>. Every call on an element of
  the junk list or of a round is applied to the document and to the clone alike, since the
  call does not say where the element is; the text is read from the clone. The clone is
  dropped on return and its numbers stay used.
\<close>

definition getTextFromElementIn :: "dom \<Rightarrow> nat \<Rightarrow> string \<times> dom" where
  "getTextFromElementIn s el =
     (case findElement el (document s) of
        None \<Rightarrow> ([], s)
      | Some (DText t) \<Rightarrow> ([], s)
      | Some (DElement i e ks) \<Rightarrow>
          if innerText e \<noteq> [] then
            (trim (replaceRuns isSpace (replaceRuns isLineBreak (innerText e))), s)
          else
            (let clone = cloneNode (nextId s) (DElement i e ks);
                 n = nextId s + length (elements clone);
                 junk = selectAll isJunk clone;
                 (doc1, clone1) =
                   foldl (\<lambda>(d, c) j. (removeElement j d, removeElement j c))
                     (document s, clone) junk;
                 (doc2, clone2) =
                   foldl (\<lambda>(d, c) tag.
                            foldl (\<lambda>(d, c) e.
                                     if tag = ''br'' then (replaceElement e d, replaceElement e c)
                                     else (surroundElement e d, surroundElement e c))
                              (d, c) (selectAll (hasTag tag) c))
                     (doc1, clone1) blockTags;
                 text = textContent (erase clone2)
             in (trim (replaceRuns isSpace (replaceRuns isLineBreakOrTab text)),
                 \<lparr>document = doc2, nextId = n\<rparr>)))"

text \<open>The element that a path leads to, and its number.\<close>

fun dnodeAt :: "dnode \<Rightarrow> path \<Rightarrow> dnode option" where
  "dnodeAt n [] = Some n"
| "dnodeAt (DText s) (i # p) = None"
| "dnodeAt (DElement j e ks) (i # p) = (if i < length ks then dnodeAt (ks ! i) p else None)"

definition identityAt :: "dnode \<Rightarrow> path \<Rightarrow> nat option" where
  "identityAt root p = (case dnodeAt root p of Some (DElement i e ks) \<Rightarrow> Some i | _ \<Rightarrow> None)"

text \<open>The loop over the fields and over the items, as in the section on extraction, with
  the state passed along: the item and the target are elements of the document.\<close>

definition fieldTargetIn ::
  "selectorEngine \<Rightarrow> dom \<Rightarrow> nat \<Rightarrow> ExtractField \<Rightarrow> error + nat option" where
  "fieldTargetIn engine s item field =
     (if relativeSelector field = ''_ROOT_'' then Inr (Some item)
      else
        (case findElement item (document s) of
           None \<Rightarrow> Inr None
         | Some d \<Rightarrow>
             (case firstMatch engine (erase d) (relativeSelector field) of
                Inl err \<Rightarrow> Inl err
              | Inr None \<Rightarrow> Inr None
              | Inr (Some p) \<Rightarrow> Inr (identityAt d p))))"

definition cellValueIn :: "dom \<Rightarrow> FieldType \<Rightarrow> nat option \<Rightarrow> string \<times> dom" where
  "cellValueIn s ty target =
     (case target of
        None \<Rightarrow> ([], s)
      | Some el \<Rightarrow>
          (case findElement el (document s) of
             None \<Rightarrow> ([], s)
           | Some d \<Rightarrow>
               if ty = IMAGE \<and> isImageElement (erase d) then (srcOf (erase d), s)
               else if ty = LINK \<and> isAnchorElement (erase d) then (hrefOf (erase d), s)
               else getTextFromElementIn s el))"

fun extractRowIn ::
  "selectorEngine \<Rightarrow> dom \<Rightarrow> nat \<Rightarrow> ExtractField list \<Rightarrow> ScrapedRow \<Rightarrow>
     (error + ScrapedRow) \<times> dom" where
  "extractRowIn engine s item [] row = (Inr row, s)"
| "extractRowIn engine s item (field # rest) row =
     (case fieldTargetIn engine s item field of
        Inl err \<Rightarrow> (Inl err, s)
      | Inr target \<Rightarrow>
          (case cellValueIn s (fieldType field) target of
             (v, s') \<Rightarrow> extractRowIn engine s' item rest (setProp (fieldId field) v row)))"

fun extractRowsIn ::
  "selectorEngine \<Rightarrow> dom \<Rightarrow> nat \<Rightarrow> nat list \<Rightarrow> ExtractField list \<Rightarrow>
     (error + ScrapedRow list) \<times> dom" where
  "extractRowsIn engine s index [] fs = (Inr [], s)"
| "extractRowsIn engine s index (item # items) fs =
     (case extractRowIn engine s item fs [(''id'', Str (''row-'' @ showNat index))] of
        (Inl err, s') \<Rightarrow> (Inl err, s')
      | (Inr row, s') \<Rightarrow>
          (case extractRowsIn engine s' (Suc index) items fs of
             (Inl err, s'') \<Rightarrow> (Inl err, s'')
           | (Inr rows, s'') \<Rightarrow> (Inr (row # rows), s'')))"

definition listItemsIn :: "selectorEngine \<Rightarrow> dom \<Rightarrow> nat \<Rightarrow> string \<Rightarrow> error + nat list" where
  "listItemsIn engine s rootContainer sel =
     (case findElement rootContainer (document s) of
        None \<Rightarrow> Inr []
      | Some root \<Rightarrow>
          (case scopedChildren engine (erase root) sel of
             Inl err \<Rightarrow> Inl err
           | Inr direct \<Rightarrow>
               if direct = [] then
                 (case allMatches engine (erase root) sel of
                    Inl err \<Rightarrow> Inl err
                  | Inr found \<Rightarrow> Inr (List.map_filter (identityAt root) found))
               else Inr (List.map_filter (identityAt root) direct)))"

definition extractDataFromListIn ::
  "selectorEngine \<Rightarrow> dom \<Rightarrow> nat \<Rightarrow> string \<Rightarrow> ExtractField list \<Rightarrow>
     (error + ScrapedRow list) \<times> dom" where
  "extractDataFromListIn engine s rootContainer sel fs =
     (case listItemsIn engine s rootContainer sel of
        Inl err \<Rightarrow> (Inl err, s)
      | Inr items \<Rightarrow> extractRowsIn engine s 0 items fs)"

text \<open>The numbers of the elements of the document are distinct and used.\<close>

definition wellFormed :: "dom \<Rightarrow> bool" where
  "wellFormed s =
     (distinct (elementIds (document s)) \<and>
      list_all (\<lambda>i. i < nextId s) (elementIds (document s)))"

text \<open>The effect of a whole list of calls at once: the elements with a number in \<open>J\<close> are
  removed, surrounded or replaced.\<close>

fun marked :: "nat set \<Rightarrow> dnode \<Rightarrow> bool" where
  "marked J (DElement i e ks) = (i \<in> J)"
| "marked J (DText s) = False"

fun removeMarked :: "nat set \<Rightarrow> dnode \<Rightarrow> dnode" where
  "removeMarked J (DText s) = DText s"
| "removeMarked J (DElement i e ks) =
     DElement i e (map (removeMarked J) (filter (\<lambda>k. \<not> marked J k) ks))"

fun surroundMarked :: "nat set \<Rightarrow> dnode \<Rightarrow> dnode" where
  "surroundMarked J (DText s) = DText s"
| "surroundMarked J (DElement i e ks) =
     DElement i e
       (concat (map (\<lambda>k. if marked J k then [DText '' '', surroundMarked J k, DText '' '']
                          else [surroundMarked J k]) ks))"

fun replaceMarked :: "nat set \<Rightarrow> dnode \<Rightarrow> dnode" where
  "replaceMarked J (DText s) = DText s"
| "replaceMarked J (DElement i e ks) =
     DElement i e (map (\<lambda>k. if marked J k then DText '' '' else replaceMarked J k) ks)"

text \<open>A tree as a document: the elements are numbered in document order.\<close>

fun labelNode :: "nat \<Rightarrow> node \<Rightarrow> dnode"
  and labelNodes :: "nat \<Rightarrow> node list \<Rightarrow> dnode list" where
  "labelNode n (Text s) = DText s"
| "labelNode n (Element e ks) = DElement n e (labelNodes (Suc n) ks)"
| "labelNodes n [] = []"
| "labelNodes n (k # ks) =
     labelNode n k # labelNodes (n + length (elements (labelNode n k))) ks"

definition domOf :: "node \<Rightarrow> dom" where
  "domOf doc = \<lparr>document = labelNode 0 doc, nextId = length (elements (labelNode 0 doc))\<rparr>"

section \<open>Export\<close>

definition csvKeys :: "ScrapedRow \<Rightarrow> string list" where
  "csvKeys row = filter (\<lambda>k. k \<noteq> ''id'') (map fst row)"

text \<open>\<open>val.replace(/"/g, '""')\<close>.\<close>

definition escapeQuotes :: "string \<Rightarrow> string" where
  "escapeQuotes val = concat (map (\<lambda>c. if c = CHR 0x22 then [CHR 0x22, CHR 0x22] else [c]) val)"

text \<open>The text of a cell: empty for \<open>undefined\<close>, else the value as a string.\<close>

definition csvValue :: "ScrapedRow \<Rightarrow> string \<Rightarrow> string" where
  "csvValue row k =
     (case getProp row k of
        Undefined \<Rightarrow> []
      | Str s \<Rightarrow> s
      | Inherited m \<Rightarrow> stringOf (Inherited m))"

definition csvCell :: "ScrapedRow \<Rightarrow> string \<Rightarrow> string" where
  "csvCell row k = (let val = csvValue row k in [CHR 0x22] @ escapeQuotes val @ [CHR 0x22])"

definition csvLine :: "string list \<Rightarrow> ScrapedRow \<Rightarrow> string" where
  "csvLine keys row = joinWith '','' (map (csvCell row) keys)"

definition generateCSV :: "ScrapedRow list \<Rightarrow> string" where
  "generateCSV rows =
     (case rows of
        [] \<Rightarrow> []
      | first # others \<Rightarrow>
          (let keys = csvKeys first;
               header = joinWith '','' keys;
               lines = map (csvLine keys) rows
           in joinWith [CHR 0x0A] (header # lines)))"

text \<open>For the statements about the output: the keys of the header, the reading of an
  escaped value, and the row sets in which no key and no value has a line break.\<close>

definition csvHeaderKeys :: "ScrapedRow list \<Rightarrow> string list" where
  "csvHeaderKeys rows = (case rows of [] \<Rightarrow> [] | first # others \<Rightarrow> csvKeys first)"

fun unescapeQuotes :: "string \<Rightarrow> string" where
  "unescapeQuotes [] = []"
| "unescapeQuotes [c] = [c]"
| "unescapeQuotes (c # d # cs) =
     (if c = CHR 0x22 \<and> d = CHR 0x22 then c # unescapeQuotes cs
      else c # unescapeQuotes (d # cs))"

definition lineBreakFree :: "ScrapedRow list \<Rightarrow> bool" where
  "lineBreakFree rows =
     (list_all (\<lambda>k. CHR 0x0A \<notin> set k) (csvHeaderKeys rows) \<and>
      list_all (\<lambda>row. list_all (\<lambda>k. CHR 0x0A \<notin> set (csvValue row k)) (csvHeaderKeys rows)) rows)"

section \<open>Cleaning one column\<close>

text \<open>The merge of the cleaned column into the rows: a cleaned entry that is missing or
  empty leaves the value of the row.\<close>

definition mergeCleaned :: "string \<Rightarrow> string list \<Rightarrow> ScrapedRow list \<Rightarrow> ScrapedRow list" where
  "mergeCleaned field cleanedColumn rows =
     map (\<lambda>(index, row).
            defineProp field
              (if index < length cleanedColumn \<and> cleanedColumn ! index \<noteq> []
               then Str (cleanedColumn ! index)
               else getProp row field)
              row)
       (zip [0..<length rows] rows)"

text \<open>
  The handler, as a function of the rows it captured when it was called and of the
  cleaning service, which answers with a column or fails. The result is the row set
  handed to the owner of the data, if any, and whether the failure notice was shown. The
  handler waits for the service: what the application did in between is in the section on
  the operations.
\<close>

definition handleAIClean ::
  "(string list \<Rightarrow> string \<Rightarrow> error + string list) \<Rightarrow> string \<Rightarrow> string \<Rightarrow>
     ScrapedRow list \<Rightarrow> ScrapedRow list option \<times> bool" where
  "handleAIClean cleanDataWithAI cleaningInstruction field rows =
     (let rawColumn = map (\<lambda>row. stringOf (getProp row field)) rows
      in case cleanDataWithAI rawColumn cleaningInstruction of
           Inl err \<Rightarrow> (None, True)
         | Inr cleanedColumn \<Rightarrow> (Some (mergeCleaned field cleanedColumn rows), False))"

section \<open>The selection handler\<close>

record ScrapedField =
  sfId :: string
  sfName :: string
  sfSelector :: string
  sfType :: FieldType
  sampleValue :: "string option"

record AppState =
  isSelecting :: bool
  fieldList :: "ScrapedField list"
  data :: "ScrapedRow list"
  listContext :: "ListContext option"

text \<open>What the handler reads from outside during one click: the answers the user would give
  to the two confirmation dialogs, and the clock.\<close>

record Environment =
  confirmReset :: bool
  confirmUpdate :: bool
  now :: nat

text \<open>\<open>el.closest(sel)\<close>: the element itself and its ancestors, nearest first.\<close>

function ancestorsOrSelf :: "path \<Rightarrow> path list" where
  "ancestorsOrSelf p = p # (if p = [] then [] else ancestorsOrSelf (butlast p))"
  by pat_completeness auto
termination
  by (relation "measure length") auto

declare ancestorsOrSelf.simps [simp del]

definition closest :: "node \<Rightarrow> path \<Rightarrow> string \<Rightarrow> error + path option" where
  "closest doc target sel =
     (case parseCompound sel of
        None \<Rightarrow> Inl SyntaxError
      | Some cs \<Rightarrow> Inr (find (matchesAt doc cs) (ancestorsOrSelf target)))"

text \<open>The loop that climbs while there is a parent other than the container.\<close>

function walkUp :: "path \<Rightarrow> path \<Rightarrow> path" where
  "walkUp cont parent =
     (case parentElement parent of
        None \<Rightarrow> parent
      | Some up \<Rightarrow> if up \<noteq> cont then walkUp cont up else parent)"
  by pat_completeness auto
termination
  by (relation "measure (\<lambda>(cont, parent). length parent)")
     (auto simp: parentElement_def split: if_splits)

declare walkUp.simps [simp del]

text \<open>Case A: the click is inside the container of the current list; the item is the
  closest match of the item selector, else the child of the container above the click.\<close>

definition itemInCurrentList :: "node \<Rightarrow> ListContext \<Rightarrow> path \<Rightarrow> error + path option" where
  "itemInCurrentList doc ctx target =
     (if contains (container ctx) target then
        (case closest doc target (itemSelector ctx) of
           Inl err \<Rightarrow> Inl err
         | Inr (Some item) \<Rightarrow> Inr (Some item)
         | Inr None \<Rightarrow>
             (let parent = walkUp (container ctx) target in
              if parentElement parent = Some (container ctx) then Inr (Some parent)
              else Inr None))
      else Inr None)"

text \<open>
  The outcome of the first part of the handler: it returns without a change, it raises,
  or it goes on with a context, the flag \<open>contextChanged\<close> and the item.
\<close>

datatype resolution = Return | Throw error | Proceed ListContext bool path

definition resolveContext :: "node \<Rightarrow> Environment \<Rightarrow> AppState \<Rightarrow> path \<Rightarrow> resolution" where
  "resolveContext doc env s target =
     (case (case listContext s of
              Some ctx \<Rightarrow> itemInCurrentList doc ctx target
            | None \<Rightarrow> Inr None) of
        Inl err \<Rightarrow> Throw err
      | Inr (Some item) \<Rightarrow>
          (case listContext s of Some ctx \<Rightarrow> Proceed ctx False item | None \<Rightarrow> Return)
      | Inr None \<Rightarrow>
          (case identifyRepeatedList doc target of
             Inl err \<Rightarrow> Throw err
           | Inr None \<Rightarrow> Return
           | Inr (Some found) \<Rightarrow>
               if (case listContext s of
                     None \<Rightarrow> True
                   | Some ctx \<Rightarrow> container found \<noteq> container ctx)
               then
                 (let confirmed = (if fieldList s \<noteq> [] then confirmReset env else True) in
                  if \<not> confirmed then Return
                  else Proceed found True (foundItem found))
               else
                 (case listContext s of
                    Some ctx \<Rightarrow> Proceed ctx False (foundItem found)
                  | None \<Rightarrow> Return)))"

text \<open>\<open>s.replace(pat, '')\<close> with a string pattern: the first occurrence goes.\<close>

fun removeFirst :: "string \<Rightarrow> string \<Rightarrow> string" where
  "removeFirst pat [] = []"
| "removeFirst pat (c # cs) =
     (if startsWith (c # cs) pat then drop (length pat) (c # cs) else c # removeFirst pat cs)"

definition stateClasses :: "string list" where
  "stateClasses = [''ng-binding'', ''v-html'', ''active'', ''selected'', ''hover'', ''focus'']"

text \<open>The relative selector and the name of the field for a click on \<open>target\<close> in the item.\<close>

definition resolveField :: "node \<Rightarrow> path \<Rightarrow> path \<Rightarrow> string \<times> string" where
  "resolveField doc target itemInList =
     (if target = itemInList then (''_ROOT_'', ''Item Content'')
      else
        (case find (\<lambda>c. startsWith c ''property-'') (classListAt doc target) of
           Some propClass \<Rightarrow> (''.'' @ propClass, removeFirst ''property-'' propClass)
         | None \<Rightarrow>
             (case filter (\<lambda>c. c \<notin> set stateClasses) (classListAt doc target) of
                first # others \<Rightarrow>
                  (let bestClass = foldl (\<lambda>a b. if length a > length b then a else b) first others
                   in (''.'' @ bestClass,
                       map (\<lambda>c. if c = CHR ''-'' \<or> c = CHR ''_'' then CHR '' '' else c) bestClass))
              | [] \<Rightarrow>
                  (let fieldSelector = toLowerCase (tagNameAt doc target)
                   in (fieldSelector, fieldSelector)))))"

definition inferType :: "string \<Rightarrow> FieldType" where
  "inferType tag =
     (let ty = TEXT;
          ty = (if tag = ''IMG'' then IMAGE else ty);
          ty = (if tag = ''A'' then LINK else ty)
      in ty)"

definition prettyNameOf :: "string \<Rightarrow> string" where
  "prettyNameOf fieldName = (case fieldName of [] \<Rightarrow> [] | c # cs \<Rightarrow> upperChar c # cs)"

definition uniqueIdOf :: "string \<Rightarrow> nat \<Rightarrow> string" where
  "uniqueIdOf fieldName time =
     map (\<lambda>c. if c \<in> set (lowerLetters @ digitChars) then c else CHR ''_'')
       (toLowerCase fieldName) @ ''_'' @ showNat time"

text \<open>Extraction on a reference; a reference that leads nowhere has no items.\<close>

definition extractAt ::
  "node \<Rightarrow> ListContext \<Rightarrow> ScrapedField list \<Rightarrow> error + ScrapedRow list" where
  "extractAt doc ctx currentFields =
     (case nodeAt doc (container ctx) of
        None \<Rightarrow> Inr []
      | Some rootContainer \<Rightarrow>
          extractDataFromList compoundEngine rootContainer (itemSelector ctx)
            (map (\<lambda>f. \<lparr>fieldId = sfId f, relativeSelector = sfSelector f, fieldType = sfType f\<rparr>)
               currentFields))"

text \<open>
  A state with what the handler raised, if anything. The state updates queued before an
  exception are kept, so a failed extraction leaves the new fields with the old rows.
\<close>

definition updateData ::
  "node \<Rightarrow> ListContext \<Rightarrow> ScrapedField list \<Rightarrow> AppState \<Rightarrow> AppState \<times> error option" where
  "updateData doc ctx currentFields s =
     (case extractAt doc ctx currentFields of
        Inl err \<Rightarrow> (s, Some err)
      | Inr extractedData \<Rightarrow> (s\<lparr>data := extractedData\<rparr>, None))"

definition handleElementClick ::
  "node \<Rightarrow> Environment \<Rightarrow> AppState \<Rightarrow> path \<Rightarrow> AppState \<times> error option" where
  "handleElementClick doc env s target =
     (if \<not> isSelecting s then (s, None)
      else
        (case resolveContext doc env s target of
           Return \<Rightarrow> (s, None)
         | Throw err \<Rightarrow> (s, Some err)
         | Proceed currentContext contextChanged itemInList \<Rightarrow>
             (let s1 = (if contextChanged
                        then s\<lparr>listContext := Some currentContext, fieldList := []\<rparr> else s);
                  (fieldSelector, fieldName) = resolveField doc target itemInList;
                  ty = inferType (tagNameAt doc target);
                  prettyName = prettyNameOf fieldName;
                  uniqueId = uniqueIdOf fieldName (now env);
                  existingField =
                    (if \<not> contextChanged
                     then find (\<lambda>f. sfSelector f = fieldSelector) (fieldList s) else None);
                  newField = \<lparr>sfId = uniqueId, sfName = prettyName, sfSelector = fieldSelector,
                                sfType = ty, sampleValue = None\<rparr>;
                  added = (if contextChanged then [newField] else fieldList s @ [newField])
              in case existingField of
                   Some existing \<Rightarrow>
                     if confirmUpdate env then
                       (let updatedFields =
                              map (\<lambda>f. if sfId f = sfId existing
                                        then f\<lparr>sfName := prettyName, sfType := ty\<rparr> else f)
                                (fieldList s)
                        in updateData doc currentContext updatedFields
                             (s1\<lparr>fieldList := updatedFields\<rparr>))
                     else updateData doc currentContext added (s1\<lparr>fieldList := added\<rparr>)
                 | None \<Rightarrow> updateData doc currentContext added (s1\<lparr>fieldList := added\<rparr>))))"


section \<open>The operations on the state\<close>









section \<open>Notions for the statements\<close>

text \<open>The net effect of the rounds for a list of tags on one node: an element whose tag is
  in the list gets a space on either side, a \<open>br\<close> in the list becomes a space.\<close>

fun spaced :: "string list \<Rightarrow> node \<Rightarrow> node list" where
  "spaced tags (Text s) = [Text s]"
| "spaced tags (Element e ks) =
     (if toLowerCase (tagName e) \<in> set tags then
        (if toLowerCase (tagName e) = ''br'' then [Text '' '']
         else [Text '' '', Element e (concat (map (spaced tags) ks)), Text '' ''])
      else [Element e (concat (map (spaced tags) ks))])"

text \<open>A class token of the candidate item that every one of the given siblings carries.\<close>

definition sharedByAll :: "node \<Rightarrow> path \<Rightarrow> path list \<Rightarrow> string \<Rightarrow> bool" where
  "sharedByAll doc current siblings c =
     (c \<in> set (classListAt doc current) \<and>
      list_all (\<lambda>sib. c \<in> set (classListAt doc sib)) siblings)"


text \<open>The field made from a click, and the states whose rows were extracted for their
  context: when extraction for the context and the fields succeeds, it gives as many rows
  as the state holds.\<close>

definition clickedField :: "node \<Rightarrow> Environment \<Rightarrow> path \<Rightarrow> path \<Rightarrow> ScrapedField" where
  "clickedField doc env target itemInList =
     (let (fieldSelector, fieldName) = resolveField doc target itemInList
      in \<lparr>sfId = uniqueIdOf fieldName (now env), sfName = prettyNameOf fieldName,
          sfSelector = fieldSelector, sfType = inferType (tagNameAt doc target),
          sampleValue = None\<rparr>)"


section \<open>Sample documents\<close>

text \<open>A small listing page: a header, a grid of three cards and a list of two entries. It
  serves as the concrete input of the examples below.\<close>

definition plainElement :: "string \<Rightarrow> string list \<Rightarrow> element" where
  "plainElement t cs =
     \<lparr>tagName = t, classList = cs, attributes = [], innerText = [], src = [], href = []\<rparr>"

definition sampleCard :: "string \<Rightarrow> string \<Rightarrow> node" where
  "sampleCard title price =
     Element (plainElement ''DIV'' [''bg-white'', ''property-card'', ''group''])
       [Element ((plainElement ''IMG'' [''w-full'', ''property-image''])
                   \<lparr>src := ''http://x/'' @ title\<rparr>) [],
        Element (plainElement ''DIV'' [''p-4''])
          [Element (plainElement ''H3'' [''text-lg'', ''property-title'']) [Text title],
           Element (plainElement ''SPAN'' [''property-price'']) [Text price],
           Element (plainElement ''BUTTON'' [''text-sm'', ''px-3'']) [Text ''Details'']]]"

definition sampleGrid :: node where
  "sampleGrid =
     Element (plainElement ''DIV'' [''grid'', ''property-grid''])
       [sampleCard ''Villa'' ''$1'', sampleCard ''Loft'' ''$2'', sampleCard ''Condo'' ''$3'']"

definition samplePage :: node where
  "samplePage =
     Element (plainElement ''HTML'' [])
       [Element (plainElement ''BODY'' [])
          [Element (plainElement ''HEADER'' []) [Element (plainElement ''H1'' []) [Text ''Dream'']],
           sampleGrid,
           Element (plainElement ''UL'' [])
             [Element (plainElement ''LI'' [''x'']) [Text ''one''],
              Element (plainElement ''LI'' [''x'']) [Text ''two'']]]]"

definition sampleRows :: "ScrapedRow list" where
  "sampleRows = [[(''id'', Str ''row-0''), (''price'', Str ''$1'')],
                 [(''id'', Str ''row-1''), (''price'', Str ''$2'')]]"

definition brokenRow :: ScrapedRow where
  "brokenRow = [(''id'', Str ''row-0''), (''note'', Str [CHR ''x'', CHR 0x0A, CHR ''y''])]"

definition cardContext :: ListContext where
  "cardContext = \<lparr>container = [0, 1], itemSelector = ''div.property-card'', foundItem = [0, 1, 0]\<rparr>"

definition listContextOfEntries :: ListContext where
  "listContextOfEntries = \<lparr>container = [0, 2], itemSelector = ''li.x'', foundItem = [0, 2, 1]\<rparr>"

definition titleField :: ScrapedField where
  "titleField = \<lparr>sfId = ''title_17'', sfName = ''Title'', sfSelector = ''.property-title'',
                  sfType = TEXT, sampleValue = None\<rparr>"

text \<open>The state after the title of a card was selected, and the answers of a user who
  confirms.\<close>

definition sampleState :: AppState where
  "sampleState =
     \<lparr>isSelecting = True, fieldList = [titleField],
      data = [[(''id'', Str ''row-0''), (''title_17'', Str ''Villa'')],
              [(''id'', Str ''row-1''), (''title_17'', Str ''Loft'')],
              [(''id'', Str ''row-2''), (''title_17'', Str ''Condo'')]],
      listContext = Some cardContext\<rparr>"

definition imageField :: ScrapedField where
  "imageField = \<lparr>sfId = ''image_18'', sfName = ''Image'', sfSelector = ''.property-image'',
                  sfType = IMAGE, sampleValue = None\<rparr>"

text \<open>The state after the image of a card was selected as well.\<close>

definition twoFieldState :: AppState where
  "twoFieldState =
     \<lparr>isSelecting = True, fieldList = [titleField, imageField],
      data = [[(''id'', Str ''row-0''), (''title_17'', Str ''Villa''),
               (''image_18'', Str ''http://x/Villa'')],
              [(''id'', Str ''row-1''), (''title_17'', Str ''Loft''),
               (''image_18'', Str ''http://x/Loft'')],
              [(''id'', Str ''row-2''), (''title_17'', Str ''Condo''),
               (''image_18'', Str ''http://x/Condo'')]],
      listContext = Some cardContext\<rparr>"


definition sampleEnv :: Environment where
  "sampleEnv = \<lparr>confirmReset = True, confirmUpdate = True, now = 18\<rparr>"


definition headingAsImage :: ExtractField where
  "headingAsImage = \<lparr>fieldId = ''title'', relativeSelector = ''.property-title'', fieldType = IMAGE\<rparr>"





text \<open>
  A list of two entries and a note. The first entry has a class of its own, with the
  highest score of all; the note has none of the classes of the entries.
\<close>

definition mixedList :: node where
  "mixedList =
     Element (plainElement ''HTML'' [])
       [Element (plainElement ''BODY'' [])
          [Element (plainElement ''UL'' [])
             [Element (plainElement ''LI'' [''featured-item-special'', ''entry'', ''list-item''])
                [Text ''one''],
              Element (plainElement ''LI'' [''list-item'', ''entry'']) [Text ''two''],
              Element (plainElement ''P'' [''note'']) [Text ''end'']]]]"









text \<open>A list whose entries carry a class token with a dot in it.\<close>

definition dottedPage :: node where
  "dottedPage =
     Element (plainElement ''HTML'' [])
       [Element (plainElement ''BODY'' [])
          [Element (plainElement ''UL'' [])
             [Element (plainElement ''LI'' [''a.b'']) [Text ''x''],
              Element (plainElement ''LI'' [''a.b'', ''a'', ''b'']) [Text ''y'']]]]"

definition sampleDom :: dom where
  "sampleDom = domOf samplePage"

definition cardFields :: "ExtractField list" where
  "cardFields =
     [\<lparr>fieldId = ''card'', relativeSelector = ''_ROOT_'', fieldType = TEXT\<rparr>, headingAsImage]"

section \<open>Properties of lists, strings and paths\<close>

lemma set_insertBy: "set (insertBy cmp x ys) = insert x (set ys)"
  by (induction ys) auto

lemma set_sortBy: "set (sortBy cmp xs) = set xs"
  by (induction xs) (auto simp: sortBy_def set_insertBy)

lemma length_insertBy: "length (insertBy cmp x ys) = Suc (length ys)"
  by (induction ys) auto

lemma length_sortBy: "length (sortBy cmp xs) = length xs"
  by (induction xs) (auto simp: sortBy_def length_insertBy)

lemma sorted_insertBy:
  "sorted_wrt (\<lambda>a b. classScore b \<le> classScore a) ys \<Longrightarrow>
   sorted_wrt (\<lambda>a b. classScore b \<le> classScore a) (insertBy compareClasses x ys)"
  by (induction ys) (auto simp: set_insertBy compareClasses_def)

lemma sorted_sortBy:
  "sorted_wrt (\<lambda>a b. classScore b \<le> classScore a) (sortBy compareClasses xs)"
proof (induction xs)
  case Nil
  show ?case by (simp add: sortBy_def)
next
  case (Cons x xs)
  have "sortBy compareClasses (x # xs) = insertBy compareClasses x (sortBy compareClasses xs)"
    by (simp add: sortBy_def)
  with Cons show ?case by (simp add: sorted_insertBy)
qed

lemma sortBy_head_best:
  assumes "sortBy compareClasses xs = best # rest"
  shows "best \<in> set xs \<and> (\<forall>d \<in> set xs. classScore d \<le> classScore best)"
proof -
  have s: "set xs = insert best (set rest)"
    using set_sortBy [of compareClasses xs] assms by simp
  have "sorted_wrt (\<lambda>a b. classScore b \<le> classScore a) (best # rest)"
    using sorted_sortBy [of xs] assms by simp
  then have "\<forall>d \<in> set rest. classScore d \<le> classScore best" by simp
  with s show ?thesis by auto
qed

lemma lowerChar_idem: "lowerChar (lowerChar c) = lowerChar c"
proof (cases "map_of (zip upperLetters lowerLetters) c")
  case None
  then show ?thesis by (simp add: lowerChar_def)
next
  case (Some d)
  then have "d \<in> set lowerLetters"
    by (meson in_set_zipE map_of_SomeD)
  moreover have "set lowerLetters \<inter> set upperLetters = {}"
    by (simp add: lowerLetters_def upperLetters_def)
  ultimately have "d \<notin> fst ` set (zip upperLetters lowerLetters)"
    by (auto dest: set_zip_leftD)
  then have "map_of (zip upperLetters lowerLetters) d = None"
    by (simp add: map_of_eq_None_iff)
  with Some show ?thesis by (simp add: lowerChar_def)
qed

lemma toLowerCase_idem: "toLowerCase (toLowerCase s) = toLowerCase s"
  by (simp add: toLowerCase_def lowerChar_idem)

lemma splitOn_nonempty: "splitOn d s \<noteq> []"
  by (induction s) (auto split: list.splits)

lemma splitOn_absent: "d \<notin> set s \<Longrightarrow> splitOn d s = [s]"
  by (induction s) auto

lemma splitOn_append: "d \<notin> set s \<Longrightarrow> splitOn d (s @ d # r) = s # splitOn d r"
  by (induction s) auto

lemma isIdent_no_dot: "isIdent s \<Longrightarrow> CHR ''.'' \<notin> set s"
proof
  assume i: "isIdent s" and d: "CHR ''.'' \<in> set s"
  from i have "list_all isNameChar s"
    by (cases s) (auto simp: isIdent_def)
  with d have "isNameChar CHR ''.''" by (simp add: list_all_iff)
  then show False
    by (simp add: isNameChar_def upperLetters_def lowerLetters_def digitChars_def)
qed

lemma isIdent_nonempty: "isIdent s \<Longrightarrow> s \<noteq> []"
  by (auto simp: isIdent_def)

lemma parseCompound_type:
  "isIdent t \<Longrightarrow> parseCompound t = Some \<lparr>typeSel = Some t, classSels = []\<rparr>"
  by (simp add: parseCompound_def splitOn_absent isIdent_no_dot isIdent_nonempty)

lemma parseCompound_type_class:
  "isIdent t \<Longrightarrow> isIdent c \<Longrightarrow>
   parseCompound (t @ CHR ''.'' # c) = Some \<lparr>typeSel = Some t, classSels = [c]\<rparr>"
  by (simp add: parseCompound_def splitOn_append splitOn_absent isIdent_no_dot isIdent_nonempty)


lemma nodeAt_snoc:
  "nodeAt doc (p @ [i]) =
     (case nodeAt doc p of
        Some (Element e ks) \<Rightarrow> if i < length ks then Some (ks ! i) else None
      | _ \<Rightarrow> None)"
proof (induction p arbitrary: doc)
  case Nil
  show ?case by (cases doc) auto
next
  case (Cons j p)
  show ?case
  proof (cases doc)
    case (Element e ks)
    with Cons show ?thesis by auto
  next
    case (Text s)
    then show ?thesis by simp
  qed
qed

lemma zip_upt_mem:
  "(i, k) \<in> set (zip [0..<length ks] ks) \<longleftrightarrow> i < length ks \<and> k = ks ! i"
proof -
  have "zip [0..<length ks] ks = enumerate 0 ks"
    by (simp add: enumerate_eq_zip)
  then show ?thesis
    by (auto simp: in_set_enumerate_eq)
qed

lemma childElements_mem:
  "(i, k) \<in> set (childElements n) \<longleftrightarrow>
     (\<exists>e ks. n = Element e ks \<and> i < length ks \<and> k = ks ! i \<and> isElement k)"
  by (cases n) (auto simp: zip_upt_mem)

lemma nodeAt_childElement:
  assumes "nodeAt doc p = Some n" and "(i, k) \<in> set (childElements n)"
  shows "nodeAt doc (p @ [i]) = Some k"
  using assms by (auto simp: nodeAt_snoc childElements_mem)

lemma children_mem:
  "c \<in> set (children doc p) \<longleftrightarrow>
     (\<exists>e ks i. nodeAt doc p = Some (Element e ks) \<and> i < length ks \<and>
        isElement (ks ! i) \<and> c = p @ [i])"
proof (cases "nodeAt doc p")
  case None
  then show ?thesis by (simp add: children_def)
next
  case (Some n)
  have "c \<in> set (children doc p) \<longleftrightarrow> (\<exists>i k. (i, k) \<in> set (childElements n) \<and> c = p @ [i])"
    using Some by (force simp: children_def)
  then show ?thesis
    using Some by (auto simp: childElements_mem)
qed

lemma elementAt_in_children:
  assumes "elementAt doc c = Some e" and "c \<noteq> []"
  shows "c \<in> set (children doc (butlast c))"
proof -
  from assms(2) have c: "c = butlast c @ [last c]" by simp
  from assms(1) obtain ks where n: "nodeAt doc c = Some (Element e ks)"
    by (auto simp: elementAt_def split: option.splits node.splits)
  then have "nodeAt doc (butlast c @ [last c]) = Some (Element e ks)"
    using c by simp
  then obtain e0 ks0 where "nodeAt doc (butlast c) = Some (Element e0 ks0)"
    and "last c < length ks0" and "ks0 ! last c = Element e ks"
    by (auto simp: nodeAt_snoc split: option.splits node.splits if_splits)
  then show ?thesis
    using c by (subst children_mem) (metis isElement.simps(1))
qed

lemma children_elementAt:
  "c \<in> set (children doc p) \<Longrightarrow> \<exists>e. elementAt doc c = Some e"
  by (auto simp: children_mem elementAt_def nodeAt_snoc elim: isElement.elims split: node.splits)

lemma children_parent:
  "c \<in> set (children doc p) \<Longrightarrow> parentElement c = Some p"
  by (auto simp: children_mem parentElement_def)

lemma distinct_childElements: "distinct (map fst (childElements n))"
proof (cases n)
  case (Element e ks)
  have "distinct (map fst (zip [0..<length ks] ks))" by simp
  then show ?thesis
    using Element by (simp add: distinct_map_filter)
next
  case (Text s)
  then show ?thesis by simp
qed

lemma distinct_children: "distinct (children doc p)"
proof (cases "nodeAt doc p")
  case None
  then show ?thesis by (simp add: children_def)
next
  case (Some n)
  have "(\<lambda>(i, k). p @ [i]) = (\<lambda>i. p @ [i]) \<circ> (fst :: nat \<times> node \<Rightarrow> nat)"
    by (simp add: fun_eq_iff)
  then have "children doc p = map (\<lambda>i. p @ [i]) (map fst (childElements n))"
    using Some by (simp add: children_def)
  moreover have "distinct (map (\<lambda>i. p @ [i]) (map fst (childElements n)))"
    using distinct_childElements [of n] by (subst distinct_map) (auto simp: inj_on_def)
  ultimately show ?thesis by simp
qed


lemma scopeMatches_parsed:
  assumes "parseCompound sel = Some cs"
  shows "scopeMatches doc parent sel = Inr (filter (matchesAt doc cs) (children doc parent))"
proof (cases "nodeAt doc parent")
  case None
  then show ?thesis by (simp add: scopeMatches_def children_def)
next
  case (Some n)
  have "\<And>i k. (i, k) \<in> set (childElements n) \<Longrightarrow>
          matchesNode cs k = matchesAt doc cs (parent @ [i])"
  proof -
    fix i k assume "(i, k) \<in> set (childElements n)"
    then have "nodeAt doc (parent @ [i]) = Some k"
      using Some by (rule nodeAt_childElement [rotated])
    then show "matchesNode cs k = matchesAt doc cs (parent @ [i])"
      by (cases k) (simp_all add: matchesAt_def elementAt_def)
  qed
  then have "map (\<lambda>(i, k). parent @ [i]) (filter (\<lambda>(i, k). matchesNode cs k) (childElements n))
      = filter (matchesAt doc cs) (map (\<lambda>(i, k). parent @ [i]) (childElements n))"
    by (induction "childElements n") (auto simp: filter_map comp_def case_prod_beta intro!: filter_cong arg_cong [where f = "map _"])
  then show ?thesis
    using Some assms by (simp add: scopeMatches_def children_def queryScopeChildren_def)
qed

lemma scopeMatches_subset:
  "scopeMatches doc parent sel = Inr ms \<Longrightarrow> set ms \<subseteq> set (children doc parent)"
  by (cases "parseCompound sel")
     (auto simp: scopeMatches_parsed, auto simp: scopeMatches_def queryScopeChildren_def split: option.splits)


lemma commonClasses_subset:
  "c \<in> set (commonClasses doc cur sibs) \<Longrightarrow>
   c \<in> set (classListAt doc cur) \<and> (\<forall>sib \<in> set sibs. c \<in> set (classListAt doc sib))"
  by (auto simp: commonClasses_def list_all_iff)

lemma buildSelector_cases:
  "(commonClasses doc cur sibs = [] \<and>
    buildSelector doc cur sibs = toLowerCase (tagNameAt doc cur)) \<or>
   (\<exists>best rest. sortBy compareClasses (commonClasses doc cur sibs) = best # rest \<and>
      buildSelector doc cur sibs = toLowerCase (tagNameAt doc cur) @ ''.'' @ best)"
proof (cases "sortBy compareClasses (commonClasses doc cur sibs)")
  case Nil
  then have "length (commonClasses doc cur sibs) = 0"
    using length_sortBy [of compareClasses "commonClasses doc cur sibs"] by simp
  then show ?thesis
    using Nil by (simp add: buildSelector_def Let_def)
next
  case (Cons best rest)
  then have "commonClasses doc cur sibs \<noteq> []"
    by (auto simp: sortBy_def)
  then have "classListAt doc cur \<noteq> []"
    by (auto simp: commonClasses_def)
  then show ?thesis
    using Cons by (simp add: buildSelector_def Let_def)
qed

lemma identifyFrom_Some:
  assumes "identifyFrom doc n cur = Inr (Some ctx)"
  shows "(\<exists>e. elementAt doc (foundItem ctx) = Some e) \<and>
         parentElement (foundItem ctx) = Some (container ctx) \<and>
         sameTagSiblings doc (container ctx) (foundItem ctx) \<noteq> [] \<and>
         itemSelector ctx =
           buildSelector doc (foundItem ctx)
             (sameTagSiblings doc (container ctx) (foundItem ctx)) \<and>
         (\<exists>ms. scopeMatches doc (container ctx) (itemSelector ctx) = Inr ms \<and> ms \<noteq> [])"
  using assms
proof (induction n arbitrary: cur)
  case 0
  then show ?case by simp
next
  case (Suc n)
  from Suc.prems obtain e parent where
    e: "elementAt doc cur = Some e" and
    tags: "\<not> (tagName e = ''BODY'' \<or> tagName e = ''HTML'')" and
    par: "parentElement cur = Some parent"
    by (auto split: option.splits if_splits)
  let ?sibs = "sameTagSiblings doc parent cur"
  let ?sel = "buildSelector doc cur ?sibs"
  let ?ctx = "\<lparr>container = parent, itemSelector = ?sel, foundItem = cur\<rparr>"
  have step: "identifyFrom doc (Suc n) cur =
      (if ?sibs \<noteq> [] then
         (case scopeMatches doc parent ?sel of
            Inl err \<Rightarrow> Inl err
          | Inr matches \<Rightarrow>
              if length matches \<ge> 1 then Inr (Some ?ctx) else identifyFrom doc n parent)
       else identifyFrom doc n parent)"
    using e tags par by (simp add: Let_def)
  show ?case
  proof (cases "?sibs = []")
    case True
    with step Suc.prems have "identifyFrom doc n parent = Inr (Some ctx)" by simp
    then show ?thesis by (rule Suc.IH)
  next
    case False
    show ?thesis
    proof (cases "scopeMatches doc parent ?sel")
      case (Inl err)
      with step False Suc.prems show ?thesis by simp
    next
      case (Inr ms)
      show ?thesis
      proof (cases "ms = []")
        case True
        with step False Inr Suc.prems have "identifyFrom doc n parent = Inr (Some ctx)"
          by simp
        then show ?thesis by (rule Suc.IH)
      next
        case ne: False
        then have "1 \<le> length ms" by (cases ms) simp_all
        with step False Inr Suc.prems have "ctx = ?ctx" by simp
        then show ?thesis using e par False Inr ne by simp
      qed
    qed
  qed
qed

lemma two_members_length:
  assumes "x \<in> set ms" and "y \<in> set ms" and "x \<noteq> y"
  shows "2 \<le> length ms"
proof -
  have "card {x, y} \<le> card (set ms)"
    using assms by (intro card_mono) auto
  moreover have "card {x, y} = 2" using assms(3) by simp
  moreover have "card (set ms) \<le> length ms" by (rule card_length)
  ultimately show ?thesis by simp
qed

section \<open>The selector of the repeated item\<close>

lemma sharedByAll_commonClasses:
  "sharedByAll doc cur sibs c \<longleftrightarrow> c \<in> set (commonClasses doc cur sibs)"
  by (auto simp: sharedByAll_def commonClasses_def)

text \<open>
  Claim C3. Take a candidate item and its same-tag siblings, and call a class shared when
  it is a class token of the item that every one of the siblings carries. When no class
  is shared, the selector is the tag of the item in lower case and no class is appended.
  When some class is shared, the selector is the tag, a dot and exactly one class; that
  class is shared, and no shared class scores higher, where the score of a class is its
  length plus ten if it has a hyphen or an underscore. For a context that
  \<open>identifyRepeatedList\<close> returns, the item selector is the one built in this way for the
  found item and the other children of the container that have its tag, of which there is
  at least one.
\<close>

theorem selector_class_maximizes_score:
  "((\<forall>c. \<not> sharedByAll doc current siblings c) \<longrightarrow>
      buildSelector doc current siblings = toLowerCase (tagNameAt doc current)) \<and>
   ((\<exists>c. sharedByAll doc current siblings c) \<longrightarrow>
      (\<exists>best. sharedByAll doc current siblings best \<and>
         buildSelector doc current siblings = toLowerCase (tagNameAt doc current) @ ''.'' @ best \<and>
         (\<forall>c. sharedByAll doc current siblings c \<longrightarrow> classScore c \<le> classScore best))) \<and>
   (\<forall>c. classScore c = length c + (if CHR ''-'' \<in> set c \<or> CHR ''_'' \<in> set c then 10 else 0)) \<and>
   (identifyRepeatedList doc target = Inr (Some ctx) \<longrightarrow>
      filter (\<lambda>c. c \<noteq> foundItem ctx \<and> tagNameAt doc c = tagNameAt doc (foundItem ctx))
        (children doc (container ctx)) \<noteq> [] \<and>
      itemSelector ctx =
        buildSelector doc (foundItem ctx)
          (filter (\<lambda>c. c \<noteq> foundItem ctx \<and> tagNameAt doc c = tagNameAt doc (foundItem ctx))
             (children doc (container ctx))))"
proof -
  let ?common = "commonClasses doc current siblings"
  let ?tag = "toLowerCase (tagNameAt doc current)"
  have a: "(\<forall>c. \<not> sharedByAll doc current siblings c) \<longrightarrow>
      buildSelector doc current siblings = ?tag"
  proof
    assume "\<forall>c. \<not> sharedByAll doc current siblings c"
    then have "set ?common = {}"
      by (auto simp: sharedByAll_commonClasses)
    then have "?common = []" by simp
    then show "buildSelector doc current siblings = ?tag"
      using buildSelector_cases [of doc current siblings] by (auto simp: sortBy_def)
  qed
  have b: "(\<exists>c. sharedByAll doc current siblings c) \<longrightarrow>
      (\<exists>best. sharedByAll doc current siblings best \<and>
         buildSelector doc current siblings = ?tag @ ''.'' @ best \<and>
         (\<forall>c. sharedByAll doc current siblings c \<longrightarrow> classScore c \<le> classScore best))"
  proof
    assume "\<exists>c. sharedByAll doc current siblings c"
    then have ne: "?common \<noteq> []"
      by (auto simp: sharedByAll_commonClasses)
    with buildSelector_cases [of doc current siblings]
    obtain best rest where
      s: "sortBy compareClasses ?common = best # rest" and
      sel: "buildSelector doc current siblings = ?tag @ ''.'' @ best"
      by auto
    from sortBy_head_best [OF s]
    have "sharedByAll doc current siblings best"
      and "\<forall>c. sharedByAll doc current siblings c \<longrightarrow> classScore c \<le> classScore best"
      by (auto simp: sharedByAll_commonClasses)
    with sel show "\<exists>best. sharedByAll doc current siblings best \<and>
         buildSelector doc current siblings = ?tag @ ''.'' @ best \<and>
         (\<forall>c. sharedByAll doc current siblings c \<longrightarrow> classScore c \<le> classScore best)"
      by blast
  qed
  have c: "\<forall>c. classScore c = length c + (if CHR ''-'' \<in> set c \<or> CHR ''_'' \<in> set c then 10 else 0)"
    by (simp add: classScore_def)
  have d: "identifyRepeatedList doc target = Inr (Some ctx) \<longrightarrow>
      filter (\<lambda>c. c \<noteq> foundItem ctx \<and> tagNameAt doc c = tagNameAt doc (foundItem ctx))
        (children doc (container ctx)) \<noteq> [] \<and>
      itemSelector ctx =
        buildSelector doc (foundItem ctx)
          (filter (\<lambda>c. c \<noteq> foundItem ctx \<and> tagNameAt doc c = tagNameAt doc (foundItem ctx))
             (children doc (container ctx)))"
    using identifyFrom_Some [of doc 8 target ctx]
    by (simp add: identifyRepeatedList_def sameTagSiblings_def)
  from a b c d show ?thesis by blast
qed

theorem selector_class_maximizes_score_witness:
  "sharedByAll mixedList [0, 0, 0] [[0, 0, 1]] ''list-item'' \<and>
   sharedByAll mixedList [0, 0, 0] [[0, 0, 1]] ''entry'' \<and>
   \<not> sharedByAll mixedList [0, 0, 0] [[0, 0, 1]] ''featured-item-special'' \<and>
   classScore ''entry'' = 5 \<and> classScore ''list-item'' = 19 \<and>
   classScore ''featured-item-special'' = 31 \<and>
   (\<exists>best. sharedByAll mixedList [0, 0, 0] [[0, 0, 1]] best \<and>
      ''li.list-item'' = ''li'' @ ''.'' @ best \<and>
      classScore ''entry'' \<le> classScore best) \<and>
   buildSelector mixedList [0, 0, 0] [[0, 0, 1]] = ''li.list-item'' \<and>
   (\<forall>c. \<not> sharedByAll mixedList [0, 0, 1] [[0, 0, 2]] c) \<and>
   buildSelector mixedList [0, 0, 1] [[0, 0, 2]] = ''li'' \<and>
   identifyRepeatedList mixedList [0, 0, 0] =
     Inr (Some \<lparr>container = [0, 0], itemSelector = ''li.list-item'', foundItem = [0, 0, 0]\<rparr>) \<and>
   filter (\<lambda>c. c \<noteq> [0, 0, 0] \<and> tagNameAt mixedList c = tagNameAt mixedList [0, 0, 0])
     (children mixedList [0, 0]) = [[0, 0, 1]]"
proof -
  let ?ctx = "\<lparr>container = [0, 0], itemSelector = ''li.list-item'', foundItem = [0, 0, 0]\<rparr>"
  have sh: "sharedByAll mixedList [0, 0, 0] [[0, 0, 1]] ''list-item''"
    "sharedByAll mixedList [0, 0, 0] [[0, 0, 1]] ''entry''"
    "\<not> sharedByAll mixedList [0, 0, 0] [[0, 0, 1]] ''featured-item-special''"
    by code_simp+
  have sc: "classScore ''entry'' = 5" "classScore ''list-item'' = 19"
    "classScore ''featured-item-special'' = 31"
    by (simp_all add: classScore_def)
  have tag: "toLowerCase (tagNameAt mixedList [0, 0, 0]) = ''li''"
    "toLowerCase (tagNameAt mixedList [0, 0, 1]) = ''li''"
    by code_simp+
  have cl: "classListAt mixedList [0, 0, 1] = [''list-item'', ''entry'']"
    "classListAt mixedList [0, 0, 2] = [''note'']"
    by code_simp+
  have none: "\<forall>c. \<not> sharedByAll mixedList [0, 0, 1] [[0, 0, 2]] c"
    by (simp only: sharedByAll_def list.pred_inject cl) auto
  have idn: "identifyRepeatedList mixedList [0, 0, 0] = Inr (Some ?ctx)"
    by code_simp
  have sibs: "filter (\<lambda>c. c \<noteq> [0, 0, 0] \<and> tagNameAt mixedList c = tagNameAt mixedList [0, 0, 0])
     (children mixedList [0, 0]) = [[0, 0, 1]]"
    by code_simp
  note thm1 = selector_class_maximizes_score [of mixedList "[0, 0, 0]" "[[0, 0, 1]]" "[0, 0, 0]" ?ctx]
  note thm2 = selector_class_maximizes_score [of mixedList "[0, 0, 1]" "[[0, 0, 2]]" "[0, 0, 0]" ?ctx]
  from thm1 idn have sel: "buildSelector mixedList [0, 0, 0] [[0, 0, 1]] = ''li.list-item''"
    by (simp add: sibs)
  from thm1 sh(2) obtain best where
    best: "sharedByAll mixedList [0, 0, 0] [[0, 0, 1]] best"
      "buildSelector mixedList [0, 0, 0] [[0, 0, 1]] = ''li'' @ ''.'' @ best"
      "classScore ''entry'' \<le> classScore best"
    unfolding tag by blast
  from thm2 none have sel': "buildSelector mixedList [0, 0, 1] [[0, 0, 2]] = ''li''"
    unfolding tag by blast
  from best sel have "\<exists>best. sharedByAll mixedList [0, 0, 0] [[0, 0, 1]] best \<and>
      ''li.list-item'' = ''li'' @ ''.'' @ best \<and> classScore ''entry'' \<le> classScore best"
    by auto
  with sh sc sel none sel' idn sibs show ?thesis by blast
qed

section \<open>The context that is returned\<close>

text \<open>
  Claim C4, as the code has it. For every context that \<open>identifyRepeatedList\<close> returns, the
  found item is a child of the container, and the item selector, a compound selector here,
  matches at least one child of the container when applied to its children. When the tag
  of the found item in lower case is an identifier, and so is the class that was appended
  to it if one was, the matches include the found item and all its same-tag siblings, so
  at least two children.
\<close>

theorem identified_context_matches:
  assumes "identifyRepeatedList doc target = Inr (Some ctx)"
  shows "parentElement (foundItem ctx) = Some (container ctx) \<and>
         foundItem ctx \<in> set (children doc (container ctx)) \<and>
         (\<exists>ms. scopeMatches doc (container ctx) (itemSelector ctx) = Inr ms \<and>
            1 \<le> length ms \<and> set ms \<subseteq> set (children doc (container ctx)) \<and>
            (isIdent (toLowerCase (tagNameAt doc (foundItem ctx))) \<and>
             (\<forall>best. itemSelector ctx =
                  toLowerCase (tagNameAt doc (foundItem ctx)) @ ''.'' @ best \<longrightarrow> isIdent best) \<longrightarrow>
               foundItem ctx \<in> set ms \<and>
               set (sameTagSiblings doc (container ctx) (foundItem ctx)) \<subseteq> set ms \<and>
               2 \<le> length ms))"
proof -
  let ?cur = "foundItem ctx" and ?par = "container ctx"
  let ?sibs = "sameTagSiblings doc ?par ?cur"
  let ?tag = "toLowerCase (tagNameAt doc ?cur)"
  from identifyFrom_Some [of doc 8 target ctx] assms
  obtain e ms where
    e: "elementAt doc ?cur = Some e" and
    par: "parentElement ?cur = Some ?par" and
    sibs: "?sibs \<noteq> []" and
    sel: "itemSelector ctx = buildSelector doc ?cur ?sibs" and
    ms: "scopeMatches doc ?par (itemSelector ctx) = Inr ms" and
    ne: "ms \<noteq> []"
    by (auto simp: identifyRepeatedList_def)
  from par have cur_ne: "?cur \<noteq> []" and par_eq: "?par = butlast ?cur"
    by (auto simp: parentElement_def split: if_splits)
  have child: "?cur \<in> set (children doc ?par)"
    using elementAt_in_children [OF e cur_ne] par_eq by simp
  have sub: "set ms \<subseteq> set (children doc ?par)"
    using ms by (rule scopeMatches_subset)
  have ident: "?cur \<in> set ms \<and> set ?sibs \<subseteq> set ms \<and> 2 \<le> length ms"
    if tagI: "isIdent ?tag"
      and clsI: "\<forall>best. itemSelector ctx = ?tag @ ''.'' @ best \<longrightarrow> isIdent best"
  proof -
    obtain cls where
      p: "parseCompound (itemSelector ctx) = Some \<lparr>typeSel = Some ?tag, classSels = cls\<rparr>" and
      c: "set cls \<subseteq> set (commonClasses doc ?cur ?sibs)"
    proof -
      from buildSelector_cases [of doc ?cur ?sibs]
      consider "buildSelector doc ?cur ?sibs = ?tag"
        | best rest where "sortBy compareClasses (commonClasses doc ?cur ?sibs) = best # rest"
            "buildSelector doc ?cur ?sibs = ?tag @ ''.'' @ best"
        by blast
      then show ?thesis
      proof cases
        case 1
        then show ?thesis
          using that [of "[]"] sel tagI by (simp add: parseCompound_type)
      next
        case 2
        from sortBy_head_best [OF 2(1)]
        have b: "best \<in> set (commonClasses doc ?cur ?sibs)" by simp
        from clsI sel 2(2) have "isIdent best" by simp
        then show ?thesis
          using that [of "[best]"] sel tagI b 2(2) by (simp add: parseCompound_type_class)
      qed
    qed
    let ?cs = "\<lparr>typeSel = Some ?tag, classSels = cls\<rparr>"
    have mseq: "ms = filter (matchesAt doc ?cs) (children doc ?par)"
      using scopeMatches_parsed [OF p, of doc ?par] ms by simp
    have m_cur: "matchesAt doc ?cs ?cur"
      using e c commonClasses_subset [of _ doc ?cur ?sibs]
      by (auto simp: matchesAt_def matchesCompound_def matchesTag_def toLowerCase_idem tagNameAt_def
            classListAt_def list_all_iff)
    have m_sib: "matchesAt doc ?cs s" if s: "s \<in> set ?sibs" for s
    proof -
      from s have sc: "s \<in> set (children doc ?par)" and
        st: "tagNameAt doc s = tagNameAt doc ?cur"
        by (auto simp: sameTagSiblings_def)
      from children_elementAt [OF sc] obtain e' where e': "elementAt doc s = Some e'" ..
      have "\<forall>c \<in> set cls. c \<in> set (classListAt doc s)"
        using c s commonClasses_subset [of _ doc ?cur ?sibs] by blast
      then show ?thesis
        using e' st
        by (auto simp: matchesAt_def matchesCompound_def matchesTag_def toLowerCase_idem tagNameAt_def
              classListAt_def list_all_iff)
    qed
    have in_cur: "?cur \<in> set ms" using mseq m_cur child by simp
    have in_sibs: "set ?sibs \<subseteq> set ms"
      using mseq m_sib by (auto simp: sameTagSiblings_def)
    from sibs obtain s where s: "s \<in> set ?sibs" by (cases ?sibs) auto
    then have "s \<noteq> ?cur" by (auto simp: sameTagSiblings_def)
    with two_members_length [of s ms ?cur] in_cur in_sibs s
    have "2 \<le> length ms" by blast
    with in_cur in_sibs show ?thesis by simp
  qed
  have "1 \<le> length ms" using ne by (cases ms) auto
  with par child ms sub ident show ?thesis by blast
qed

theorem identified_context_matches_witness:
  "identifyRepeatedList samplePage [0, 1, 0, 1, 0] = Inr (Some cardContext) \<and>
   parentElement (foundItem cardContext) = Some (container cardContext) \<and>
   foundItem cardContext \<in> set (children samplePage (container cardContext)) \<and>
   toLowerCase (tagNameAt samplePage (foundItem cardContext)) = ''div'' \<and>
   isIdent ''div'' \<and>
   itemSelector cardContext = ''div'' @ ''.'' @ ''property-card'' \<and>
   isIdent ''property-card'' \<and>
   (\<exists>ms. scopeMatches samplePage (container cardContext) (itemSelector cardContext) = Inr ms \<and>
      foundItem cardContext \<in> set ms \<and>
      set (sameTagSiblings samplePage (container cardContext) (foundItem cardContext))
        \<subseteq> set ms \<and>
      2 \<le> length ms)"
proof -
  have idn: "identifyRepeatedList samplePage [0, 1, 0, 1, 0] = Inr (Some cardContext)"
    by code_simp
  have tag: "toLowerCase (tagNameAt samplePage (foundItem cardContext)) = ''div''"
    by code_simp
  have tagI: "isIdent ''div''"
    by code_simp
  have sel: "itemSelector cardContext = ''div'' @ ''.'' @ ''property-card''"
    by (simp add: cardContext_def)
  have clsI: "isIdent ''property-card''"
    by code_simp
  have "\<forall>best. itemSelector cardContext =
      toLowerCase (tagNameAt samplePage (foundItem cardContext)) @ ''.'' @ best \<longrightarrow> isIdent best"
    using clsI by (simp only: tag sel) simp
  with identified_context_matches [OF idn] idn tag tagI sel clsI
  show ?thesis by auto
qed

text \<open>
  The claim as it was stated fails where a class token has a dot in it: the selector
  \<open>li.a.b\<close> asks for the two classes \<open>a\<close> and \<open>b\<close>. On the page below a context is returned
  whose item selector matches one child only, and not the found item.
\<close>

theorem dotted_class_counterexample:
  "identifyRepeatedList dottedPage [0, 0, 0] =
     Inr (Some \<lparr>container = [0, 0], itemSelector = ''li.a.b'', foundItem = [0, 0, 0]\<rparr>) \<and>
   scopeMatches dottedPage [0, 0] ''li.a.b'' = Inr [[0, 0, 1]]"
  by code_simp

section \<open>Merging a cleaned column\<close>

lemma map_of_overwrite_other:
  "k' \<noteq> k \<Longrightarrow>
   map_of (map (\<lambda>(k', v'). if k' = k then (k, v) else (k', v')) row) k' = map_of row k'"
proof (induction row)
  case Nil
  show ?case by simp
next
  case (Cons a row)
  obtain a1 a2 where a: "a = (a1, a2)" by (cases a)
  from Cons a show ?case by (cases "a1 = k") simp_all
qed

lemma map_of_overwrite_same:
  "k \<in> set (map fst row) \<Longrightarrow>
   map_of (map (\<lambda>(k', v'). if k' = k then (k, v) else (k', v')) row) k = Some v"
proof (induction row)
  case Nil
  then show ?case by simp
next
  case (Cons a row)
  obtain a1 a2 where a: "a = (a1, a2)" by (cases a)
  from Cons a show ?case by (cases "a1 = k") simp_all
qed

lemma map_of_insert_at:
  assumes "k \<notin> set (map fst xs)"
  shows "map_of (xs @ (k, v) # ys) x = (if x = k then Some v else map_of (xs @ ys) x)"
  using assms
proof (induction xs)
  case Nil
  show ?case by simp
next
  case (Cons a xs)
  obtain a1 a2 where a: "a = (a1, a2)" by (cases a)
  with Cons.prems have ne: "a1 \<noteq> k" and rest: "k \<notin> set (map fst xs)" by auto
  from Cons.IH [OF rest] a ne show ?case by (cases "x = a1") simp_all
qed

lemma map_of_insert_between:
  assumes "k \<notin> set (map fst xs)"
  shows "map_of (xs @ (k, v) # ys) = (map_of (xs @ ys))(k \<mapsto> v)"
proof (rule ext)
  fix x
  show "map_of (xs @ (k, v) # ys) x = ((map_of (xs @ ys))(k \<mapsto> v)) x"
    using map_of_insert_at [OF assms, of v ys x] by (cases "x = k") simp_all
qed

lemma map_of_defineProp: "map_of (defineProp k v row) = (map_of row)(k \<mapsto> v)"
proof (cases "k \<in> set (map fst row)")
  case True
  have "map_of (map (\<lambda>(k', v'). if k' = k then (k, v) else (k', v')) row) k' =
      ((map_of row)(k \<mapsto> v)) k'" for k'
    using map_of_overwrite_other [of k' k v row] map_of_overwrite_same [OF True, of v]
    by (cases "k' = k") simp_all
  then have "map_of (map (\<lambda>(k', v'). if k' = k then (k, v) else (k', v')) row) =
      (map_of row)(k \<mapsto> v)"
    by (rule ext)
  with True show ?thesis
    by (simp only: defineProp_def if_True)
next
  case False
  let ?P = "\<lambda>(k', v'). isArrayIndex k' \<and> numberOf k' < numberOf k"
  have "k \<notin> set (map fst (takeWhile ?P row))"
    using False by (auto dest: set_takeWhileD)
  then have "map_of (takeWhile ?P row @ (k, v) # dropWhile ?P row) =
      (map_of (takeWhile ?P row @ dropWhile ?P row))(k \<mapsto> v)"
    by (rule map_of_insert_between)
  then have m: "map_of (takeWhile ?P row @ (k, v) # dropWhile ?P row) = (map_of row)(k \<mapsto> v)"
    by (simp only: takeWhile_dropWhile_id)
  have e: "map_of (row @ [(k, v)]) = (map_of row)(k \<mapsto> v)"
    using map_of_insert_between [of k row v "[]"] False by simp
  show ?thesis
  proof (cases "isArrayIndex k")
    case True
    with False m show ?thesis by (simp only: defineProp_def if_False if_True)
  next
    case nidx: False
    with False e show ?thesis by (simp only: defineProp_def if_False)
  qed
qed

lemma getProp_defineProp:
  "getProp (defineProp k v row) k' = (if k' = k then v else getProp row k')"
  by (simp add: getProp_def map_of_defineProp)


lemma length_mergeCleaned: "length (mergeCleaned field cleaned rows) = length rows"
  by (simp add: mergeCleaned_def)

lemma mergeCleaned_nth:
  assumes "i < length rows"
  shows "getProp (mergeCleaned field cleaned rows ! i) k =
           (if k = field then
              (if i < length cleaned \<and> cleaned ! i \<noteq> [] then Str (cleaned ! i)
               else getProp (rows ! i) field)
            else getProp (rows ! i) k)"
  using assms by (simp add: mergeCleaned_def getProp_defineProp)

text \<open>
  Claim C1. The claim is that an answer of the cleaning service whose length differs from
  the number of rows leaves the column as it was. The comment on the merge calls it a
  fallback to the original on an error or a mismatch, and the service is documented to
  answer with a column of the length of its input; but the handler does not compare the
  lengths, it merges row by row (\<open>mergeCleaned_nth\<close>). For the two sample rows and an
  answer of one entry, the handler hands over rows in which the price of the first row is
  the entry of the answer and no longer the value it had, and it shows no failure notice.
\<close>

theorem short_column_overwrites_prefix:
  "length [''1''] \<noteq> length sampleRows \<and>
   handleAIClean (\<lambda>rawData instruction. Inr [''1'']) ''strip'' ''price'' sampleRows =
     (Some [[(''id'', Str ''row-0''), (''price'', Str ''1'')],
            [(''id'', Str ''row-1''), (''price'', Str ''$2'')]], False) \<and>
   getProp (sampleRows ! 0) ''price'' = Str ''$1''"
  by (simp add: sampleRows_def handleAIClean_def mergeCleaned_def defineProp_def getProp_def upt_rec)

section \<open>The lines of the export\<close>

lemma splitOn_joinWith:
  assumes "xs \<noteq> []" and "\<forall>x \<in> set xs. d \<notin> set x"
  shows "splitOn d (joinWith [d] xs) = xs"
  using assms
proof (induction "[d]" xs rule: joinWith.induct)
  case 1
  then show ?case by simp
next
  case (2 x)
  then show ?case by (simp add: splitOn_absent)
next
  case (3 x y ys)
  then show ?case by (simp add: splitOn_append)
qed

lemma set_joinWith: "set (joinWith sep xs) \<subseteq> set sep \<union> \<Union> (set ` set xs)"
  by (induction sep xs rule: joinWith.induct) auto

lemma set_escapeQuotes: "set (escapeQuotes v) = set v"
  by (induction v) (auto simp: escapeQuotes_def)

lemma count_escapeQuotes:
  "count_list (escapeQuotes v) (CHR 0x22) = 2 * count_list v (CHR 0x22)"
  by (induction v) (auto simp: escapeQuotes_def)

lemma filter_escapeQuotes:
  "filter (\<lambda>c. c \<noteq> CHR 0x22) (escapeQuotes v) = filter (\<lambda>c. c \<noteq> CHR 0x22) v"
  by (induction v) (auto simp: escapeQuotes_def)

lemma escapeQuotes_Cons:
  "escapeQuotes (c # v) = (if c = CHR 0x22 then CHR 0x22 # CHR 0x22 # escapeQuotes v else c # escapeQuotes v)"
  by (simp add: escapeQuotes_def)

lemma unescape_escapeQuotes: "unescapeQuotes (escapeQuotes v) = v"
proof (induction v)
  case Nil
  show ?case by (simp add: escapeQuotes_def)
next
  case (Cons c v)
  show ?case
  proof (cases "c = CHR 0x22")
    case True
    with Cons show ?thesis by (simp add: escapeQuotes_Cons)
  next
    case False
    with Cons show ?thesis
      by (cases "escapeQuotes v") (simp_all add: escapeQuotes_Cons)
  qed
qed

lemma generateCSV_structure:
  "generateCSV rows =
     (if rows = [] then []
      else joinWith [CHR 0x0A]
             (joinWith '','' (csvHeaderKeys rows) # map (csvLine (csvHeaderKeys rows)) rows))"
  by (cases rows) (simp_all add: generateCSV_def csvHeaderKeys_def Let_def)

lemma csvLine_no_break:
  assumes "\<forall>k \<in> set keys. CHR 0x0A \<notin> set (csvValue row k)"
  shows "CHR 0x0A \<notin> set (csvLine keys row)"
proof
  assume "CHR 0x0A \<in> set (csvLine keys row)"
  then have "CHR 0x0A \<in> set '','' \<union> \<Union> (set ` set (map (csvCell row) keys))"
    using set_joinWith [of "'',''" "map (csvCell row) keys"] by (auto simp: csvLine_def)
  then obtain k where "k \<in> set keys" and "CHR 0x0A \<in> set (csvCell row k)" by auto
  then show False
    using assms by (auto simp: csvCell_def set_escapeQuotes)
qed

lemma header_no_break:
  assumes "\<forall>k \<in> set keys. CHR 0x0A \<notin> set k"
  shows "CHR 0x0A \<notin> set (joinWith '','' keys)"
  using set_joinWith [of "'',''" keys] assms by auto

text \<open>
  Claim C6, as the code has it. The output for no rows is empty. Otherwise it is the header,
  made of the keys of the first row without \<open>id\<close> joined by commas, and one record per row,
  joined by line breaks; a record is the values for the header keys, each wrapped in double
  quotes with every double quote in it doubled, joined by commas. When no header key and
  no value holds a line break, splitting the output at the line breaks gives back the
  header and exactly one line per row.
\<close>

theorem csv_header_and_data_lines:
  "generateCSV rows =
     (if rows = [] then []
      else joinWith [CHR 0x0A]
             (joinWith '','' (csvHeaderKeys rows) # map (csvLine (csvHeaderKeys rows)) rows)) \<and>
   csvHeaderKeys rows = (if rows = [] then [] else filter (\<lambda>k. k \<noteq> ''id'') (map fst (hd rows))) \<and>
   length (map (csvLine (csvHeaderKeys rows)) rows) = length rows \<and>
   (\<forall>row. csvLine (csvHeaderKeys rows) row =
      joinWith '',''
        (map (\<lambda>k. [CHR 0x22] @ escapeQuotes (csvValue row k) @ [CHR 0x22]) (csvHeaderKeys rows))) \<and>
   (\<forall>v. count_list (escapeQuotes v) (CHR 0x22) = 2 * count_list v (CHR 0x22) \<and>
        filter (\<lambda>c. c \<noteq> CHR 0x22) (escapeQuotes v) = filter (\<lambda>c. c \<noteq> CHR 0x22) v \<and>
        unescapeQuotes (escapeQuotes v) = v) \<and>
   (lineBreakFree rows \<longrightarrow>
      splitOn (CHR 0x0A) (generateCSV rows) =
        joinWith '','' (csvHeaderKeys rows) # map (csvLine (csvHeaderKeys rows)) rows \<and>
      length (splitOn (CHR 0x0A) (generateCSV rows)) = Suc (length rows))"
proof -
  let ?keys = "csvHeaderKeys rows"
  let ?all = "joinWith '','' ?keys # map (csvLine ?keys) rows"
  have a: "generateCSV rows = (if rows = [] then [] else joinWith [CHR 0x0A] ?all)"
    by (rule generateCSV_structure)
  have b: "?keys = (if rows = [] then [] else filter (\<lambda>k. k \<noteq> ''id'') (map fst (hd rows)))"
    by (cases rows) (simp_all add: csvHeaderKeys_def csvKeys_def)
  have c: "\<forall>row. csvLine ?keys row =
      joinWith '','' (map (\<lambda>k. [CHR 0x22] @ escapeQuotes (csvValue row k) @ [CHR 0x22]) ?keys)"
    by (simp add: csvLine_def csvCell_def [abs_def] Let_def)
  have d: "\<forall>v. count_list (escapeQuotes v) (CHR 0x22) = 2 * count_list v (CHR 0x22) \<and>
        filter (\<lambda>c. c \<noteq> CHR 0x22) (escapeQuotes v) = filter (\<lambda>c. c \<noteq> CHR 0x22) v \<and>
        unescapeQuotes (escapeQuotes v) = v"
    by (simp add: count_escapeQuotes filter_escapeQuotes unescape_escapeQuotes)
  have e: "splitOn (CHR 0x0A) (generateCSV rows) = ?all" if lf: "lineBreakFree rows"
  proof (cases "rows = []")
    case True
    then show ?thesis by (simp add: generateCSV_def csvHeaderKeys_def)
  next
    case False
    have "\<forall>x \<in> set ?all. CHR 0x0A \<notin> set x"
      using lf header_no_break [of ?keys] csvLine_no_break [of ?keys]
      by (auto simp: lineBreakFree_def list_all_iff)
    then have "splitOn (CHR 0x0A) (joinWith [CHR 0x0A] ?all) = ?all"
      by (intro splitOn_joinWith) simp_all
    with a False show ?thesis by simp
  qed
  from a b c d e show ?thesis by simp
qed

theorem csv_header_and_data_lines_witness:
  "lineBreakFree sampleRows \<and>
   splitOn (CHR 0x0A) (generateCSV sampleRows) =
     [''price'', [CHR 0x22, CHR ''$'', CHR ''1'', CHR 0x22], [CHR 0x22, CHR ''$'', CHR ''2'', CHR 0x22]] \<and>
   length (splitOn (CHR 0x0A) (generateCSV sampleRows)) = Suc (length sampleRows)"
proof -
  have lf: "lineBreakFree sampleRows"
    by (simp add: lineBreakFree_def sampleRows_def csvHeaderKeys_def csvKeys_def csvValue_def getProp_def)
  have k: "csvHeaderKeys sampleRows = [''price'']"
    by (simp add: sampleRows_def csvHeaderKeys_def csvKeys_def)
  have l: "map (csvLine [''price'']) sampleRows =
      [[CHR 0x22, CHR ''$'', CHR ''1'', CHR 0x22], [CHR 0x22, CHR ''$'', CHR ''2'', CHR 0x22]]"
    by (simp add: sampleRows_def csvLine_def csvCell_def csvValue_def getProp_def escapeQuotes_def)
  from csv_header_and_data_lines [of sampleRows]
  have "lineBreakFree sampleRows \<longrightarrow>
      splitOn (CHR 0x0A) (generateCSV sampleRows) =
        joinWith '','' (csvHeaderKeys sampleRows) #
        map (csvLine (csvHeaderKeys sampleRows)) sampleRows \<and>
      length (splitOn (CHR 0x0A) (generateCSV sampleRows)) = Suc (length sampleRows)"
    by blast
  moreover have "length sampleRows = 2" by (simp add: sampleRows_def)
  ultimately show ?thesis using lf k l by simp
qed

text \<open>
  The claim as it was stated fails for a value that holds a line break: the record of one
  row then spans two lines.
\<close>

theorem csv_line_break_counterexample:
  "length [brokenRow] = 1 \<and>
   splitOn (CHR 0x0A) (generateCSV [brokenRow]) =
     [''note'', [CHR 0x22, CHR ''x''], [CHR ''y'', CHR 0x22]]"
  by (simp add: brokenRow_def generateCSV_def csvKeys_def csvLine_def csvCell_def csvValue_def
        getProp_def escapeQuotes_def)

section \<open>The text of block children\<close>

lemma concat_map_concat:
  "concat (map f (concat xss)) = concat (map (\<lambda>xs. concat (map f xs)) xss)"
  by (induction xss) auto

lemma spaced_Nil: "spaced [] n = [n]"
proof (induction n)
  case (Element e ks)
  then have "concat (map (spaced []) ks) = concat (map (\<lambda>k. [k]) ks)"
    by (intro arg_cong [where f = concat] map_cong) auto
  also have "\<dots> = ks" by simp
  finally show ?case by simp
next
  case (Text s)
  show ?case by simp
qed

lemma spaceAround_spaced:
  assumes "toLowerCase t = t" and "t \<notin> set tags"
  shows "concat (map (spaceAround t) (spaced tags n)) = spaced (tags @ [t]) n"
proof (induction n)
  case (Text s)
  show ?case by simp
next
  case (Element e ks)
  let ?inner = "concat (map (spaced tags) ks)"
  have "concat (map (spaceAround t) ?inner)
      = concat (map (\<lambda>k. concat (map (spaceAround t) (spaced tags k))) ks)"
    by (simp add: concat_map_concat comp_def)
  also have "\<dots> = concat (map (spaced (tags @ [t])) ks)"
    using Element.IH by (intro arg_cong [where f = concat] map_cong) auto
  finally have inner: "concat (map (spaceAround t) ?inner) = concat (map (spaced (tags @ [t])) ks)" .
  have m: "matchesTag t e \<longleftrightarrow> toLowerCase (tagName e) = t"
    using assms(1) by (auto simp: matchesTag_def)
  show ?case
  proof (cases "toLowerCase (tagName e) \<in> set tags")
    case True
    with assms(2) have "toLowerCase (tagName e) \<noteq> t" by auto
    with True inner m show ?thesis by simp
  next
    case False
    with inner m show ?thesis by auto
  qed
qed

lemma foldl_spaceAround:
  assumes "distinct tags" and "\<forall>t \<in> set tags. toLowerCase t = t"
  shows "foldl (\<lambda>ns tag. concat (map (spaceAround tag) ns)) ks tags
           = concat (map (spaced tags) ks)"
  using assms
proof (induction tags rule: rev_induct)
  case Nil
  show ?case by (simp add: spaced_Nil [abs_def] concat_map_singleton)
next
  case (snoc t tags)
  then have t: "toLowerCase t = t" "t \<notin> set tags" by auto
  have "foldl (\<lambda>ns tag. concat (map (spaceAround tag) ns)) ks (tags @ [t])
      = concat (map (spaceAround t) (concat (map (spaced tags) ks)))"
    using snoc by simp
  also have "\<dots> = concat (map (\<lambda>k. concat (map (spaceAround t) (spaced tags k))) ks)"
    by (simp add: concat_map_concat comp_def)
  also have "\<dots> = concat (map (spaced (tags @ [t])) ks)"
    by (simp add: spaceAround_spaced [OF t])
  finally show ?case .
qed

lemma blockTags_lower: "\<forall>t \<in> set blockTags. toLowerCase t = t"
  by (simp add: blockTags_def toLowerCase_def lowerChar_def upperLetters_def lowerLetters_def)

lemma spaceBlocks_spaced: "spaceBlocks ks = concat (map (spaced blockTags) ks)"
  unfolding spaceBlocks_def
  by (rule foldl_spaceAround) (simp_all add: blockTags_lower, simp add: blockTags_def)

text \<open>
  Claim C7. Take an element without rendered text, so that the fallback runs, whose children
  are two block elements other than \<open>br\<close>, neither of them hidden or otherwise stripped,
  the first holding the text \<open>Title\<close> and the second the text \<open>Price\<close>. Its text is
  \<open>Title Price\<close>: one space between the two, none at the ends.
\<close>

theorem block_children_text_separated:
  assumes "innerText e = []"
    and "toLowerCase (tagName a) \<in> set blockTags" and "toLowerCase (tagName a) \<noteq> ''br''"
    and "toLowerCase (tagName b) \<in> set blockTags" and "toLowerCase (tagName b) \<noteq> ''br''"
    and "\<not> isJunk (Element a [Text ''Title''])" and "\<not> isJunk (Element b [Text ''Price''])"
  shows "getTextFromElement (Element e [Element a [Text ''Title''], Element b [Text ''Price'']])
           = ''Title Price''"
proof -
  let ?A = "Element a [Text ''Title'']" and ?B = "Element b [Text ''Price'']"
  have rj: "removeJunk (Element e [?A, ?B]) = Element e [?A, ?B]"
    using assms(6,7) by simp
  have sp: "spaceBlocks [?A, ?B] = [Text '' '', ?A, Text '' '', Text '' '', ?B, Text '' '']"
    using assms(2-5) by (simp add: spaceBlocks_spaced)
  have tx: "concat (map textContent (spaceBlocks [?A, ?B])) = '' Title  Price ''"
    by (simp add: sp)
  have n1: "replaceRuns isLineBreakOrTab '' Title  Price '' = '' Title  Price ''"
    by (simp add: isLineBreakOrTab_def)
  have n2: "replaceRuns isSpace '' Title  Price '' = '' Title Price ''"
    by (simp add: isSpace_def)
  have n3: "trim '' Title Price '' = ''Title Price''"
    by (simp add: trim_def isSpace_def)
  have "getTextFromElement (Element e [?A, ?B]) =
      trim (replaceRuns isSpace (replaceRuns isLineBreakOrTab
        (concat (map textContent (spaceBlocks [?A, ?B])))))"
    using assms(1) rj by (simp add: Let_def del: removeJunk.simps replaceRuns.simps)
  also have "\<dots> = ''Title Price''"
    by (simp only: tx n1 n2 n3)
  finally show ?thesis .
qed

theorem block_children_text_separated_witness:
  "innerText (plainElement ''DIV'' []) = [] \<and>
   toLowerCase (tagName (plainElement ''H3'' [])) \<in> set blockTags \<and>
   toLowerCase (tagName (plainElement ''H3'' [])) \<noteq> ''br'' \<and>
   toLowerCase (tagName (plainElement ''P'' [])) \<in> set blockTags \<and>
   toLowerCase (tagName (plainElement ''P'' [])) \<noteq> ''br'' \<and>
   \<not> isJunk (Element (plainElement ''H3'' []) [Text ''Title'']) \<and>
   \<not> isJunk (Element (plainElement ''P'' []) [Text ''Price'']) \<and>
   getTextFromElement
     (Element (plainElement ''DIV'' [])
        [Element (plainElement ''H3'' []) [Text ''Title''],
         Element (plainElement ''P'' []) [Text ''Price'']]) = ''Title Price''"
proof -
  have h: "innerText (plainElement ''DIV'' []) = []"
    "toLowerCase (tagName (plainElement ''H3'' [])) \<in> set blockTags"
    "toLowerCase (tagName (plainElement ''H3'' [])) \<noteq> ''br''"
    "toLowerCase (tagName (plainElement ''P'' [])) \<in> set blockTags"
    "toLowerCase (tagName (plainElement ''P'' [])) \<noteq> ''br''"
    "\<not> isJunk (Element (plainElement ''H3'' []) [Text ''Title''])"
    "\<not> isJunk (Element (plainElement ''P'' []) [Text ''Price''])"
    by code_simp+
  from block_children_text_separated [OF h] h show ?thesis by blast
qed

section \<open>Cells of the extracted rows\<close>












section \<open>The selection handler: switching the list\<close>

lemma resolveContext_switch:
  "resolveContext doc env s target = Proceed found True item \<longleftrightarrow>
     (case listContext s of Some ctx \<Rightarrow> itemInCurrentList doc ctx target | None \<Rightarrow> Inr None)
       = Inr None \<and>
     identifyRepeatedList doc target = Inr (Some found) \<and>
     (case listContext s of None \<Rightarrow> True | Some ctx \<Rightarrow> container found \<noteq> container ctx) \<and>
     (fieldList s \<noteq> [] \<longrightarrow> confirmReset env) \<and>
     item = foundItem found"
  by (auto simp: resolveContext_def Let_def split: option.splits sum.splits if_splits)


lemma updateData_result:
  "updateData doc ctx fs s =
     (case extractAt doc ctx fs of
        Inl err \<Rightarrow> (s, Some err)
      | Inr rows \<Rightarrow> (s\<lparr>data := rows\<rparr>, None))"
  by (simp add: updateData_def)

lemma handleElementClick_switch:
  assumes "isSelecting s" and "resolveContext doc env s target = Proceed found True item"
  shows "handleElementClick doc env s target =
     updateData doc found [clickedField doc env target item]
       (s\<lparr>listContext := Some found, fieldList := [clickedField doc env target item]\<rparr>)"
  using assms
  by (simp add: handleElementClick_def clickedField_def Let_def split: prod.splits)

text \<open>
  Claim C2. Let selection mode be on, let the field set be non-empty, and let the first part
  of the handler end with the flag \<open>contextChanged\<close> set, for the context \<open>found\<close>. Then
  the user confirmed the switch, \<open>found\<close> is what \<open>identifyRepeatedList\<close> returned for the
  click, and in the state after the click the list context is \<open>found\<close>, its container is
  not the container of the previous context, and the field set holds exactly one field,
  the one made from the click with the found item as its item. The rows are those
  extracted for this field, or the previous ones if extraction raised.
\<close>

theorem confirmed_list_switch:
  assumes "isSelecting s"
    and "fieldList s \<noteq> []"
    and "resolveContext doc env s target = Proceed found True item"
  shows "confirmReset env \<and>
         identifyRepeatedList doc target = Inr (Some found) \<and>
         item = foundItem found \<and>
         (\<exists>s' err. handleElementClick doc env s target = (s', err) \<and>
            listContext s' = Some found \<and>
            (\<forall>old. listContext s = Some old \<longrightarrow> container found \<noteq> container old) \<and>
            fieldList s' = [clickedField doc env target (foundItem found)] \<and>
            (case extractAt doc found (fieldList s') of
               Inr rows \<Rightarrow> data s' = rows \<and> err = None
             | Inl e \<Rightarrow> data s' = data s \<and> err = Some e))"
proof -
  from assms(3) have
    idn: "identifyRepeatedList doc target = Inr (Some found)" and
    dif: "case listContext s of None \<Rightarrow> True | Some ctx \<Rightarrow> container found \<noteq> container ctx" and
    cnf: "fieldList s \<noteq> [] \<longrightarrow> confirmReset env" and
    itm: "item = foundItem found"
    by (simp_all add: resolveContext_switch)
  let ?f = "clickedField doc env target (foundItem found)"
  let ?s1 = "s\<lparr>listContext := Some found, fieldList := [?f]\<rparr>"
  have h: "handleElementClick doc env s target = updateData doc found [?f] ?s1"
    using handleElementClick_switch [OF assms(1,3)] itm by simp
  have old: "\<forall>old. listContext s = Some old \<longrightarrow> container found \<noteq> container old"
    using dif by (auto split: option.splits)
  show ?thesis
  proof (cases "extractAt doc found [?f]")
    case (Inl e)
    then have "handleElementClick doc env s target = (?s1, Some e)"
      using h by (simp add: updateData_result)
    with Inl old idn itm cnf assms(2) show ?thesis by simp
  next
    case (Inr rows)
    then have "handleElementClick doc env s target = (?s1\<lparr>data := rows\<rparr>, None)"
      using h by (simp add: updateData_result)
    with Inr old idn itm cnf assms(2) show ?thesis by simp
  qed
qed

theorem confirmed_list_switch_witness:
  "isSelecting sampleState \<and> fieldList sampleState \<noteq> [] \<and>
   resolveContext samplePage sampleEnv sampleState [0, 2, 1] =
     Proceed listContextOfEntries True [0, 2, 1] \<and>
   listContext sampleState = Some cardContext \<and>
   confirmReset sampleEnv \<and>
   identifyRepeatedList samplePage [0, 2, 1] = Inr (Some listContextOfEntries) \<and>
   container listContextOfEntries \<noteq> container cardContext \<and>
   (\<exists>s' err. handleElementClick samplePage sampleEnv sampleState [0, 2, 1] = (s', err) \<and>
      listContext s' = Some listContextOfEntries \<and>
      fieldList s' =
        [\<lparr>sfId = ''item_content_18'', sfName = ''Item Content'', sfSelector = ''_ROOT_'',
           sfType = TEXT, sampleValue = None\<rparr>])"
proof -
  have a: "isSelecting sampleState" "fieldList sampleState \<noteq> []"
    by (simp_all add: sampleState_def)
  have b: "resolveContext samplePage sampleEnv sampleState [0, 2, 1] =
     Proceed listContextOfEntries True [0, 2, 1]"
    by code_simp
  have c: "listContext sampleState = Some cardContext"
    by (simp add: sampleState_def)
  have f: "clickedField samplePage sampleEnv [0, 2, 1] (foundItem listContextOfEntries) =
      \<lparr>sfId = ''item_content_18'', sfName = ''Item Content'', sfSelector = ''_ROOT_'',
           sfType = TEXT, sampleValue = None\<rparr>"
    by code_simp
  from confirmed_list_switch [OF a b] obtain s' err where
    "confirmReset sampleEnv"
    "identifyRepeatedList samplePage [0, 2, 1] = Inr (Some listContextOfEntries)"
    "handleElementClick samplePage sampleEnv sampleState [0, 2, 1] = (s', err)"
    "listContext s' = Some listContextOfEntries"
    "\<forall>old. listContext sampleState = Some old \<longrightarrow>
       container listContextOfEntries \<noteq> container old"
    "fieldList s' = [clickedField samplePage sampleEnv [0, 2, 1] (foundItem listContextOfEntries)]"
    by blast
  with a b c f show ?thesis by auto
qed

section \<open>The selection handler: updating a field\<close>

















section \<open>Extraction leaves the document as it was\<close>

lemma elementIds_simps [simp]:
  "elementIds (DText s) = []"
  "elementIds (DElement i e ks) = i # concat (map elementIds ks)"
  by (simp_all add: elementIds_def [abs_def] map_concat comp_def)

lemma marked_insert: "marked (insert j J) k \<longleftrightarrow> hasId j k \<or> marked J k"
  by (cases k) auto

lemma hasId_removeMarked [simp]: "hasId j (removeMarked J k) = hasId j k"
  by (cases k) simp_all

lemma hasId_surroundMarked [simp]: "hasId j (surroundMarked J k) = hasId j k"
  by (cases k) simp_all

lemma marked_empty [simp]: "\<not> marked {} k"
  by (cases k) simp_all

lemma removeMarked_empty [simp]: "removeMarked {} d = d"
  by (induction d) (simp_all add: map_idI)

lemma removeElement_removeMarked:
  "removeElement j (removeMarked J d) = removeMarked (insert j J) d"
proof (induction d)
  case (DText s)
  show ?case by simp
next
  case (DElement i e ks)
  have "map (removeElement j) (filter (\<lambda>k. \<not> hasId j k) (map (removeMarked J) (filter (\<lambda>k. \<not> marked J k) ks)))
      = map (removeElement j \<circ> removeMarked J) (filter (\<lambda>k. \<not> marked (insert j J) k) ks)"
    by (simp add: filter_map comp_def marked_insert conj_commute)
  also have "\<dots> = map (removeMarked (insert j J)) (filter (\<lambda>k. \<not> marked (insert j J) k) ks)"
    using DElement.IH by (intro map_cong) auto
  finally show ?case by simp
qed

lemma foldl_removeElement:
  "foldl (\<lambda>c j. removeElement j c) (removeMarked J c) js = removeMarked (J \<union> set js) c"
  by (induction js arbitrary: J) (simp_all add: removeElement_removeMarked)

lemma identity_in_ids:
  "k \<in> set ks \<Longrightarrow> hasId j k \<Longrightarrow> j \<in> set (concat (map elementIds ks))"
  by (cases k) force+

lemma removeElement_absent: "j \<notin> set (elementIds d) \<Longrightarrow> removeElement j d = d"
proof (induction d)
  case (DText s)
  show ?case by simp
next
  case (DElement i e ks)
  then have no: "\<forall>k \<in> set ks. \<not> hasId j k"
    using identity_in_ids [of _ ks j] by auto
  have "\<forall>k \<in> set ks. removeElement j k = k"
    using DElement by auto
  with no show ?case by (simp add: map_idI filter_id_conv)
qed

lemma surroundElement_absent: "j \<notin> set (elementIds d) \<Longrightarrow> surroundElement j d = d"
proof (induction d)
  case (DText s)
  show ?case by simp
next
  case (DElement i e ks)
  then have no: "\<forall>k \<in> set ks. \<not> hasId j k"
    using identity_in_ids [of _ ks j] by auto
  have same: "\<forall>k \<in> set ks. surroundElement j k = k"
    using DElement by auto
  have "concat (map (\<lambda>k. if hasId j k then [DText '' '', surroundElement j k, DText '' '']
                          else [surroundElement j k]) ks) = concat (map (\<lambda>k. [k]) ks)"
    using no same by (intro arg_cong [where f = concat] map_cong) auto
  then show ?case by simp
qed

lemma replaceElement_absent: "j \<notin> set (elementIds d) \<Longrightarrow> replaceElement j d = d"
proof (induction d)
  case (DText s)
  show ?case by simp
next
  case (DElement i e ks)
  then have no: "\<forall>k \<in> set ks. \<not> hasId j k"
    using identity_in_ids [of _ ks j] by auto
  have same: "\<forall>k \<in> set ks. replaceElement j k = k"
    using DElement by auto
  have "map (\<lambda>k. if hasId j k then DText '' '' else replaceElement j k) ks = map (\<lambda>k. k) ks"
    using no same by (intro map_cong) auto
  then show ?case by simp
qed

lemma surroundMarked_empty [simp]: "surroundMarked {} d = d"
proof (induction d)
  case (DText s)
  show ?case by simp
next
  case (DElement i e ks)
  then have "concat (map (\<lambda>k. if marked {} k then [DText '' '', surroundMarked {} k, DText '' '']
                          else [surroundMarked {} k]) ks) = concat (map (\<lambda>k. [k]) ks)"
    by (intro arg_cong [where f = concat] map_cong) auto
  then show ?case by simp
qed

lemma replaceMarked_empty [simp]: "replaceMarked {} d = d"
  by (induction d) (simp_all add: map_idI)

lemma surroundElement_surroundMarked:
  "j \<notin> J \<Longrightarrow> surroundElement j (surroundMarked J d) = surroundMarked (insert j J) d"
proof (induction d)
  case (DText s)
  show ?case by simp
next
  case (DElement i e ks)
  let ?F = "\<lambda>k. if marked J k then [DText '' '', surroundMarked J k, DText '' ''] else [surroundMarked J k]"
  let ?G = "\<lambda>k. if hasId j k then [DText '' '', surroundElement j k, DText '' '']
                 else [surroundElement j k]"
  let ?H = "\<lambda>k. if marked (insert j J) k
                 then [DText '' '', surroundMarked (insert j J) k, DText '' '']
                 else [surroundMarked (insert j J) k]"
  have each: "concat (map ?G (?F k)) = ?H k" if k: "k \<in> set ks" for k
  proof -
    have ih: "surroundElement j (surroundMarked J k) = surroundMarked (insert j J) k"
      using DElement k by simp
    show ?thesis
    proof (cases "marked J k")
      case True
      then have "\<not> hasId j k" using DElement.prems by (cases k) auto
      with True ih show ?thesis by (simp add: marked_insert)
    next
      case False
      with ih show ?thesis by (simp add: marked_insert)
    qed
  qed
  have "concat (map ?G (concat (map ?F ks))) = concat (map (\<lambda>k. concat (map ?G (?F k))) ks)"
    by (simp add: concat_map_concat comp_def)
  also have "\<dots> = concat (map ?H ks)"
    using each by (intro arg_cong [where f = concat] map_cong) auto
  finally show ?case by simp
qed

lemma foldl_surroundElement:
  "distinct js \<Longrightarrow> set js \<inter> J = {} \<Longrightarrow>
   foldl (\<lambda>c j. surroundElement j c) (surroundMarked J c) js = surroundMarked (J \<union> set js) c"
proof (induction js arbitrary: J)
  case Nil
  show ?case by simp
next
  case (Cons j js)
  then have "j \<notin> J" and "distinct js" and "set js \<inter> insert j J = {}" by auto
  with Cons.IH [of "insert j J"] show ?case
    by (simp add: surroundElement_surroundMarked)
qed

lemma replaceElement_replaceMarked:
  "replaceElement j (replaceMarked J d) = replaceMarked (insert j J) d"
proof (induction d)
  case (DText s)
  show ?case by simp
next
  case (DElement i e ks)
  have "map ((\<lambda>k. if hasId j k then DText '' '' else replaceElement j k) \<circ>
             (\<lambda>k. if marked J k then DText '' '' else replaceMarked J k)) ks
      = map (\<lambda>k. if marked (insert j J) k then DText '' '' else replaceMarked (insert j J) k) ks"
  proof (intro map_cong refl)
    fix k assume k: "k \<in> set ks"
    have h: "hasId j (replaceMarked J k) = hasId j k" by (cases k) simp_all
    from DElement k have "replaceElement j (replaceMarked J k) = replaceMarked (insert j J) k" by simp
    with h show "((\<lambda>k. if hasId j k then DText '' '' else replaceElement j k) \<circ>
             (\<lambda>k. if marked J k then DText '' '' else replaceMarked J k)) k =
          (if marked (insert j J) k then DText '' '' else replaceMarked (insert j J) k)"
      by (simp add: marked_insert)
  qed
  then show ?case by simp
qed

lemma foldl_replaceElement:
  "foldl (\<lambda>c j. replaceElement j c) (replaceMarked J c) js = replaceMarked (J \<union> set js) c"
  by (induction js arbitrary: J) (simp_all add: replaceElement_replaceMarked)

lemma subseq_distinct: "subseq xs ys \<Longrightarrow> distinct ys \<Longrightarrow> distinct xs"
proof (induction rule: list_emb.induct)
  case (list_emb_Nil ys)
  show ?case by simp
next
  case (list_emb_Cons xs ys y)
  then show ?case by simp
next
  case (list_emb_Cons2 x y xs ys)
  then have "set xs \<subseteq> set ys" by (auto dest: list_emb_set)
  with list_emb_Cons2 show ?case by auto
qed

lemma subseq_subset: "subseq xs ys \<Longrightarrow> set xs \<subseteq> set ys"
  by (auto dest: list_emb_set)

lemma subseq_concat_filter:
  assumes "\<forall>k \<in> set ks. subseq (f k) (g k)"
  shows "subseq (concat (map f (filter Q ks))) (concat (map g ks))"
  using assms
proof (induction ks)
  case Nil
  show ?case by simp
next
  case (Cons k ks)
  then have a: "subseq (f k) (g k)" and b: "subseq (concat (map f (filter Q ks))) (concat (map g ks))"
    by auto
  show ?case
  proof (cases "Q k")
    case True
    with a b show ?thesis by (simp add: list_emb_append_mono)
  next
    case False
    with b show ?thesis by (simp add: list_emb_append2)
  qed
qed

lemma subseq_removeMarked: "subseq (elementIds (removeMarked J d)) (elementIds d)"
proof (induction d)
  case (DText s)
  show ?case by simp
next
  case (DElement i e ks)
  have "subseq (concat (map (\<lambda>k. elementIds (removeMarked J k)) (filter (\<lambda>k. \<not> marked J k) ks)))
          (concat (map elementIds ks))"
    using DElement by (intro subseq_concat_filter) auto
  then show ?case by (simp add: comp_def)
qed

lemma subseq_replaceMarked: "subseq (elementIds (replaceMarked J d)) (elementIds d)"
proof (induction d)
  case (DText s)
  show ?case by simp
next
  case (DElement i e ks)
  have "concat (map (\<lambda>k. elementIds (if marked J k then DText '' '' else replaceMarked J k)) ks)
      = concat (map (\<lambda>k. elementIds (replaceMarked J k)) (filter (\<lambda>k. \<not> marked J k) ks))"
    by (induction ks) auto
  moreover have "subseq (concat (map (\<lambda>k. elementIds (replaceMarked J k)) (filter (\<lambda>k. \<not> marked J k) ks)))
          (concat (map elementIds ks))"
    using DElement by (intro subseq_concat_filter) auto
  ultimately show ?case by (simp add: comp_def)
qed

lemma elementIds_surroundMarked: "elementIds (surroundMarked J d) = elementIds d"
proof (induction d)
  case (DText s)
  show ?case by simp
next
  case (DElement i e ks)
  let ?F = "\<lambda>k. if marked J k then [DText '' '', surroundMarked J k, DText '' ''] else [surroundMarked J k]"
  have "concat (map elementIds (concat (map ?F ks)))
      = concat (map (\<lambda>k. concat (map elementIds (?F k))) ks)"
    by (simp add: concat_map_concat comp_def)
  also have "\<dots> = concat (map elementIds ks)"
    using DElement by (intro arg_cong [where f = concat] map_cong) auto
  finally show ?case by simp
qed


lemma elements_are_elements:
  "k \<in> set (elements d) \<Longrightarrow> \<exists>i e ks. k = DElement i e ks"
proof (induction d)
  case (DText s)
  then show ?case by simp
next
  case (DElement i e ks)
  then show ?case by auto
qed

lemma elements_self: "set (elements k) \<subseteq> insert k (set (concat (map elements (childNodes k))))"
  by (cases k) auto

lemma child_elements:
  "k \<in> set ks \<Longrightarrow> set (elements k) \<subseteq> set (concat (map elements ks))"
  by auto

lemma below_child:
  "k \<in> set ks \<Longrightarrow>
   set (concat (map elements (childNodes k))) \<subseteq> set (concat (map elements ks))"
proof (cases k)
  case (DText s)
  then show ?thesis by simp
next
  case (DElement i e ks')
  assume "k \<in> set ks"
  then have "set (elements k) \<subseteq> set (concat (map elements ks))" by auto
  moreover have "set (concat (map elements (childNodes k))) \<subseteq> set (elements k)"
    using DElement by auto
  ultimately show ?thesis by blast
qed

lemma child_marked:
  assumes "\<forall>k' \<in> set (concat (map elements ks)). marked J k' \<longleftrightarrow> P (erase k')"
    and "k \<in> set ks" and "\<And>s. \<not> P (Text s)"
  shows "marked J k \<longleftrightarrow> P (erase k)"
proof (cases k)
  case (DText s)
  with assms(3) show ?thesis by simp
next
  case (DElement i e ks')
  then have "k \<in> set (elements k)" by simp
  with assms(1,2) show ?thesis by auto
qed

lemma erase_removeMarked:
  assumes "\<forall>k \<in> set (concat (map elements (childNodes d))). marked J k \<longleftrightarrow> isJunk (erase k)"
  shows "erase (removeMarked J d) = removeJunk (erase d)"
  using assms
proof (induction d)
  case (DText s)
  show ?case by simp
next
  case (DElement i e ks)
  then have ag: "\<forall>k' \<in> set (concat (map elements ks)). marked J k' \<longleftrightarrow> isJunk (erase k')"
    by simp
  have m: "marked J k \<longleftrightarrow> isJunk (erase k)" if "k \<in> set ks" for k
    using child_marked [OF ag that] by simp
  have ih: "erase (removeMarked J k) = removeJunk (erase k)" if k: "k \<in> set ks" for k
  proof -
    have "\<forall>k' \<in> set (concat (map elements (childNodes k))). marked J k' \<longleftrightarrow> isJunk (erase k')"
      using ag below_child [OF k] by blast
    with DElement.IH k show ?thesis by blast
  qed
  have "filter (\<lambda>k. \<not> marked J k) ks = filter (\<lambda>k. \<not> isJunk (erase k)) ks"
    using m by (intro filter_cong) auto
  then have "map erase (map (removeMarked J) (filter (\<lambda>k. \<not> marked J k) ks))
      = map (\<lambda>k. erase (removeMarked J k)) (filter (\<lambda>k. \<not> isJunk (erase k)) ks)"
    by simp
  also have "\<dots> = map (\<lambda>k. removeJunk (erase k)) (filter (\<lambda>k. \<not> isJunk (erase k)) ks)"
    using ih by (intro map_cong) auto
  also have "\<dots> = map removeJunk (filter (\<lambda>k. \<not> isJunk k) (map erase ks))"
    by (simp add: filter_map comp_def)
  finally show ?case by simp
qed

lemma below_ids:
  "map identity (concat (map elements (childNodes d))) = concat (map elementIds (childNodes d))"
  by (simp add: map_concat comp_def elementIds_def [abs_def])

lemma distinct_below:
  assumes "distinct (elementIds d)"
  shows "distinct (map identity (concat (map elements (childNodes d))))"
proof (cases d)
  case (DText s)
  then show ?thesis by simp
next
  case (DElement i e ks)
  with assms have "distinct (concat (map elementIds (childNodes d)))" by simp
  then show ?thesis by (simp only: below_ids)
qed

lemma selectAll_subset: "set (selectAll P d) \<subseteq> set (elementIds d)"
  by (cases d) (auto simp: selectAll_def elementIds_def [abs_def])

lemma distinct_selectAll: "distinct (elementIds d) \<Longrightarrow> distinct (selectAll P d)"
  unfolding selectAll_def using distinct_below [of d] by (simp add: distinct_map_filter)

lemma selectAll_marked:
  assumes "distinct (elementIds d)" and "k \<in> set (concat (map elements (childNodes d)))"
  shows "marked (set (selectAll P d)) k \<longleftrightarrow> P (erase k)"
proof -
  let ?below = "concat (map elements (childNodes d))"
  from assms(2) obtain i e ks where k: "k = DElement i e ks"
    by (cases d) (auto dest: elements_are_elements)
  have inj: "inj_on identity (set ?below)"
    using distinct_below [OF assms(1)] by (simp add: distinct_map)
  have "marked (set (selectAll P d)) k \<longleftrightarrow>
      (\<exists>k' \<in> set ?below. P (erase k') \<and> identity k' = identity k)"
    using k by (auto simp: selectAll_def)
  also have "\<dots> \<longleftrightarrow> P (erase k)"
    using inj assms(2) by (auto dest: inj_onD)
  finally show ?thesis .
qed

lemma erase_surroundMarked:
  assumes "t \<noteq> ''br''"
    and "\<forall>k' \<in> set (elements k). marked J k' \<longleftrightarrow> hasTag t (erase k')"
  shows "map erase (if marked J k then [DText '' '', surroundMarked J k, DText '' '']
                    else [surroundMarked J k]) = spaceAround t (erase k)"
  using assms(2)
proof (induction k)
  case (DText s)
  show ?case by simp
next
  case (DElement i e ks)
  let ?F = "\<lambda>k. if marked J k then [DText '' '', surroundMarked J k, DText '' ''] else [surroundMarked J k]"
  have ih: "map erase (?F k) = spaceAround t (erase k)" if k: "k \<in> set ks" for k
  proof -
    have "\<forall>k' \<in> set (elements k). marked J k' \<longleftrightarrow> hasTag t (erase k')"
      using DElement.prems k by auto
    with DElement.IH k show ?thesis by blast
  qed
  have "map erase (concat (map ?F ks)) = concat (map (\<lambda>k. map erase (?F k)) ks)"
    by (simp add: map_concat comp_def)
  also have "\<dots> = concat (map (\<lambda>k. spaceAround t (erase k)) ks)"
    using ih by (intro arg_cong [where f = concat] map_cong) auto
  finally have inner: "map erase (concat (map ?F ks)) = concat (map (spaceAround t) (map erase ks))"
    by (simp add: comp_def)
  have "i \<in> J \<longleftrightarrow> matchesTag t e"
    using DElement.prems by simp
  with inner assms(1) show ?case by simp
qed

lemma erase_replaceMarked:
  assumes "\<forall>k' \<in> set (elements k). marked J k' \<longleftrightarrow> hasTag ''br'' (erase k')"
  shows "[erase (if marked J k then DText '' '' else replaceMarked J k)] = spaceAround ''br'' (erase k)"
  using assms
proof (induction k)
  case (DText s)
  show ?case by simp
next
  case (DElement i e ks)
  have ih: "[erase (if marked J k then DText '' '' else replaceMarked J k)] = spaceAround ''br'' (erase k)"
    if k: "k \<in> set ks" for k
  proof -
    have "\<forall>k' \<in> set (elements k). marked J k' \<longleftrightarrow> hasTag ''br'' (erase k')"
      using DElement.prems k by auto
    with DElement.IH k show ?thesis by blast
  qed
  have "map erase (map (\<lambda>k. if marked J k then DText '' '' else replaceMarked J k) ks)
      = concat (map (\<lambda>k. [erase (if marked J k then DText '' '' else replaceMarked J k)]) ks)"
    by (simp add: comp_def)
  also have "\<dots> = concat (map (\<lambda>k. spaceAround ''br'' (erase k)) ks)"
    using ih by (intro arg_cong [where f = concat] map_cong) auto
  finally have inner: "map erase (map (\<lambda>k. if marked J k then DText '' '' else replaceMarked J k) ks)
      = concat (map (spaceAround ''br'') (map erase ks))" by (simp add: comp_def)
  have "i \<in> J \<longleftrightarrow> matchesTag ''br'' e"
    using DElement.prems by simp
  with inner show ?case by simp
qed


lemma upt_shift: "[n..<n + Suc m] = n # [Suc n..<Suc n + m]"
proof -
  have "[n..<n + Suc m] = n # [Suc n..<n + Suc m]"
    by (rule upt_conv_Cons) simp
  then show ?thesis by (simp only: add_Suc add_Suc_right)
qed

lemma erase_cloneNode:
  "erase (cloneNode n d) = erase d"
  "map erase (cloneNodes n ks) = map erase ks"
  by (induction n d and n ks rule: cloneNode_cloneNodes.induct) simp_all

lemma count_cloneNode:
  "length (elements (cloneNode n d)) = length (elements d)"
  "length (concat (map elements (cloneNodes n ks))) = length (concat (map elements ks))"
  by (induction n d and n ks rule: cloneNode_cloneNodes.induct) simp_all

lemma elementIds_cloneNode:
  "elementIds (cloneNode n d) = [n..<n + length (elements d)]"
  "concat (map elementIds (cloneNodes n ks)) = [n..<n + length (concat (map elements ks))]"
proof (induction n d and n ks rule: cloneNode_cloneNodes.induct)
  case (1 n s)
  show ?case by simp
next
  case (2 n i e ks)
  let ?m = "length (concat (map elements ks))"
  have ih: "concat (map elementIds (cloneNodes (Suc n) ks)) = [Suc n..<Suc n + ?m]"
    by (rule 2)
  have "elementIds (cloneNode n (DElement i e ks)) =
      n # concat (map elementIds (cloneNodes (Suc n) ks))"
    by simp
  also have "\<dots> = n # [Suc n..<Suc n + ?m]"
    by (simp only: ih)
  also have "\<dots> = [n..<n + Suc ?m]"
    by (rule upt_shift [symmetric])
  finally show ?case by simp
next
  case (3 n)
  show ?case by simp
next
  case (4 n k ks)
  have "[n..<n + length (elements k)] @
        [n + length (elements k)..<n + length (elements k) + length (concat (map elements ks))]
      = [n..<n + (length (elements k) + length (concat (map elements ks)))]"
    using upt_add_eq_append [of n "n + length (elements k)" "length (concat (map elements ks))"]
    by (simp add: add.assoc)
  with 4 show ?case by simp
qed

lemma foldl_remove_frame:
  assumes "\<forall>j \<in> set js. j \<notin> set (elementIds d)"
  shows "foldl (\<lambda>(d, c) j. (removeElement j d, removeElement j c)) (d, c) js =
           (d, foldl (\<lambda>c j. removeElement j c) c js)"
  using assms by (induction js arbitrary: c) (simp_all add: removeElement_absent)

lemma foldl_round_frame:
  assumes "\<forall>j \<in> set js. j \<notin> set (elementIds d)"
  shows "foldl (\<lambda>(d, c) e. if b then (replaceElement e d, replaceElement e c)
                              else (surroundElement e d, surroundElement e c)) (d, c) js =
           (d, foldl (\<lambda>c e. if b then replaceElement e c else surroundElement e c) c js)"
proof (cases b)
  case True
  with assms show ?thesis
    by (induction js arbitrary: c) (simp_all add: replaceElement_absent)
next
  case False
  with assms show ?thesis
    by (induction js arbitrary: c) (simp_all add: surroundElement_absent)
qed

lemma round_result:
  assumes "distinct (elementIds (DElement i e ks))"
  shows "\<exists>ks'. foldl (\<lambda>c j. if t = ''br'' then replaceElement j c else surroundElement j c)
                 (DElement i e ks) (selectAll (hasTag t) (DElement i e ks)) = DElement i e ks' \<and>
           map erase ks' = concat (map (spaceAround t) (map erase ks)) \<and>
           distinct (elementIds (DElement i e ks')) \<and>
           set (elementIds (DElement i e ks')) \<subseteq> set (elementIds (DElement i e ks))"
proof -
  let ?c = "DElement i e ks"
  let ?js = "selectAll (hasTag t) ?c"
  let ?J = "set ?js"
  have ag: "\<forall>k' \<in> set (elements k). marked ?J k' \<longleftrightarrow> hasTag t (erase k')" if "k \<in> set ks" for k
  proof
    fix k' assume "k' \<in> set (elements k)"
    with that have "k' \<in> set (concat (map elements (childNodes ?c)))" by auto
    from selectAll_marked [OF assms this] show "marked ?J k' \<longleftrightarrow> hasTag t (erase k')" .
  qed
  show ?thesis
  proof (cases "t = ''br''")
    case True
    let ?F = "\<lambda>k. if marked ?J k then DText '' '' else replaceMarked ?J k"
    have "foldl (\<lambda>c j. replaceElement j c) (replaceMarked {} ?c) ?js = replaceMarked ({} \<union> ?J) ?c"
      by (rule foldl_replaceElement)
    then have f: "foldl (\<lambda>c j. if t = ''br'' then replaceElement j c else surroundElement j c) ?c ?js
        = DElement i e (map ?F ks)"
      using True by simp
    have "map erase (map ?F ks) = concat (map (\<lambda>k. [erase (?F k)]) ks)"
      by (simp add: comp_def)
    also have "\<dots> = concat (map (\<lambda>k. spaceAround ''br'' (erase k)) ks)"
    proof (intro arg_cong [where f = concat] map_cong refl)
      fix k assume "k \<in> set ks"
      from ag [OF this] True show "[erase (?F k)] = spaceAround ''br'' (erase k)"
        by (intro erase_replaceMarked) simp
    qed
    finally have er: "map erase (map ?F ks) = concat (map (spaceAround t) (map erase ks))"
      using True by (simp add: comp_def)
    have sub: "subseq (elementIds (DElement i e (map ?F ks))) (elementIds ?c)"
      using subseq_replaceMarked [of ?J ?c] by simp
    then have d: "distinct (elementIds (DElement i e (map ?F ks)))"
      using assms by (rule subseq_distinct)
    have s: "set (elementIds (DElement i e (map ?F ks))) \<subseteq> set (elementIds ?c)"
      using sub by (rule subseq_subset)
    from f er d s show ?thesis by blast
  next
    case False
    let ?F = "\<lambda>k. if marked ?J k then [DText '' '', surroundMarked ?J k, DText '' ''] else [surroundMarked ?J k]"
    have dj: "distinct ?js" using assms by (rule distinct_selectAll)
    have "foldl (\<lambda>c j. surroundElement j c) (surroundMarked {} ?c) ?js = surroundMarked ({} \<union> ?J) ?c"
      using dj by (intro foldl_surroundElement) simp_all
    then have f: "foldl (\<lambda>c j. if t = ''br'' then replaceElement j c else surroundElement j c) ?c ?js
        = DElement i e (concat (map ?F ks))"
      using False by simp
    have "map erase (concat (map ?F ks)) = concat (map (\<lambda>k. map erase (?F k)) ks)"
      by (simp add: map_concat comp_def)
    also have "\<dots> = concat (map (\<lambda>k. spaceAround t (erase k)) ks)"
    proof (intro arg_cong [where f = concat] map_cong refl)
      fix k assume "k \<in> set ks"
      from ag [OF this] show "map erase (?F k) = spaceAround t (erase k)"
        by (intro erase_surroundMarked [OF False]) simp
    qed
    finally have er: "map erase (concat (map ?F ks)) = concat (map (spaceAround t) (map erase ks))"
      by (simp add: comp_def)
    have ids: "elementIds (DElement i e (concat (map ?F ks))) = elementIds ?c"
      using elementIds_surroundMarked [of ?J ?c] by simp
    have d: "distinct (elementIds (DElement i e (concat (map ?F ks))))"
      using assms by (simp only: ids)
    have s: "set (elementIds (DElement i e (concat (map ?F ks)))) \<subseteq> set (elementIds ?c)"
      by (simp only: ids)
    from f er d s show ?thesis by blast
  qed
qed


lemma rounds_result:
  assumes "distinct (elementIds (DElement i e ks))"
    and "set (elementIds (DElement i e ks)) \<inter> set (elementIds d) = {}"
  shows "\<exists>ks'.
           foldl (\<lambda>(d, c) tag.
                    foldl (\<lambda>(d, c) e.
                             if tag = ''br'' then (replaceElement e d, replaceElement e c)
                             else (surroundElement e d, surroundElement e c))
                      (d, c) (selectAll (hasTag tag) c))
             (d, DElement i e ks) ts = (d, DElement i e ks') \<and>
           map erase ks' = foldl (\<lambda>ns tag. concat (map (spaceAround tag) ns)) (map erase ks) ts"
  using assms
proof (induction ts arbitrary: ks)
  case Nil
  show ?case by simp
next
  case (Cons t ts)
  let ?c = "DElement i e ks"
  let ?js = "selectAll (hasTag t) ?c"
  have "\<forall>j \<in> set ?js. j \<notin> set (elementIds d)"
    using Cons.prems(2) selectAll_subset [of "hasTag t" ?c] by blast
  from foldl_round_frame [OF this, of "t = ''br''" ?c]
  have step: "foldl (\<lambda>(d, c) e.
                  if t = ''br'' then (replaceElement e d, replaceElement e c)
                  else (surroundElement e d, surroundElement e c)) (d, ?c) ?js =
      (d, foldl (\<lambda>c e. if t = ''br'' then replaceElement e c else surroundElement e c) ?c ?js)" .
  from round_result [OF Cons.prems(1), of t] obtain ks1 where
    r: "foldl (\<lambda>c j. if t = ''br'' then replaceElement j c else surroundElement j c) ?c ?js
          = DElement i e ks1" and
    er: "map erase ks1 = concat (map (spaceAround t) (map erase ks))" and
    d1: "distinct (elementIds (DElement i e ks1))" and
    s1: "set (elementIds (DElement i e ks1)) \<subseteq> set (elementIds ?c)"
    by blast
  have dj: "set (elementIds (DElement i e ks1)) \<inter> set (elementIds d) = {}"
    using s1 Cons.prems(2) by blast
  from Cons.IH [OF d1 dj] obtain ks' where
    f: "foldl (\<lambda>(d, c) tag.
                    foldl (\<lambda>(d, c) e.
                             if tag = ''br'' then (replaceElement e d, replaceElement e c)
                             else (surroundElement e d, surroundElement e c))
                      (d, c) (selectAll (hasTag tag) c))
             (d, DElement i e ks1) ts = (d, DElement i e ks')" and
    e': "map erase ks' = foldl (\<lambda>ns tag. concat (map (spaceAround tag) ns)) (map erase ks1) ts"
    by blast
  from step r f er e' show ?case by simp
qed

lemma findElement_Some:
  "findElement j d = Some nd \<Longrightarrow> nd \<in> set (elements d) \<and> (\<exists>e ks. nd = DElement j e ks)"
proof -
  assume "findElement j d = Some nd"
  then have mem: "nd \<in> set (elements d)" and h: "hasId j nd"
    by (auto simp: findElement_def find_Some_iff)
  from elements_are_elements [OF mem] obtain i e ks where nd: "nd = DElement i e ks"
    by blast
  with h have "i = j" by simp
  with mem nd show ?thesis by blast
qed

lemma elementIds_subtree:
  "nd \<in> set (elements d) \<Longrightarrow> set (elementIds nd) \<subseteq> set (elementIds d)"
proof (induction d)
  case (DText s)
  then show ?case by simp
next
  case (DElement i e ks)
  show ?case
  proof (cases "nd = DElement i e ks")
    case True
    then show ?thesis by simp
  next
    case False
    with DElement.prems obtain k where "k \<in> set ks" and "nd \<in> set (elements k)" by auto
    with DElement.IH show ?thesis by auto
  qed
qed

lemma getTextFromElementIn_element:
  assumes "findElement el (document s) = Some (DElement el e ks)"
    and "\<forall>i \<in> set (elementIds (document s)). i < nextId s"
  shows "\<exists>n \<ge> nextId s.
           getTextFromElementIn s el =
             (getTextFromElement (erase (DElement el e ks)), s\<lparr>nextId := n\<rparr>)"
proof (cases "innerText e = []")
  case False
  with assms(1) have
    "getTextFromElementIn s el =
       (getTextFromElement (erase (DElement el e ks)), s\<lparr>nextId := nextId s\<rparr>)"
    by (simp add: getTextFromElementIn_def)
  then show ?thesis by blast
next
  case True
  let ?nd = "DElement el e ks"
  let ?n = "nextId s"
  let ?doc = "document s"
  let ?clone = "cloneNode ?n ?nd"
  let ?cks = "cloneNodes (Suc ?n) ks"
  have clone: "?clone = DElement ?n e ?cks" by simp
  have ids: "elementIds ?clone = [?n..<?n + length (elements ?nd)]"
    by (rule elementIds_cloneNode)
  have dc: "distinct (elementIds ?clone)" by (simp only: ids) simp
  have fresh: "set (elementIds ?clone) \<inter> set (elementIds ?doc) = {}"
    using assms(2) by (simp only: ids) auto
  let ?junk = "selectAll isJunk ?clone"
  let ?J = "set ?junk"
  have "\<forall>j \<in> ?J. j \<notin> set (elementIds ?doc)"
    using fresh selectAll_subset [of isJunk ?clone] by blast
  from foldl_remove_frame [OF this, of ?clone]
  have j1: "foldl (\<lambda>(d, c) j. (removeElement j d, removeElement j c)) (?doc, ?clone) ?junk =
      (?doc, foldl (\<lambda>c j. removeElement j c) ?clone ?junk)" .
  have "foldl (\<lambda>c j. removeElement j c) (removeMarked {} ?clone) ?junk = removeMarked ({} \<union> ?J) ?clone"
    by (rule foldl_removeElement)
  then have j2: "foldl (\<lambda>c j. removeElement j c) ?clone ?junk = removeMarked ?J ?clone"
    by (simp only: removeMarked_empty Un_empty_left)
  let ?ks1 = "map (removeMarked ?J) (filter (\<lambda>k. \<not> marked ?J k) ?cks)"
  have c1: "removeMarked ?J ?clone = DElement ?n e ?ks1"
    by (simp only: clone removeMarked.simps)
  have "\<forall>k \<in> set (concat (map elements (childNodes ?clone))).
      marked ?J k \<longleftrightarrow> isJunk (erase k)"
    using selectAll_marked [OF dc] by blast
  then have "erase (removeMarked ?J ?clone) = removeJunk (erase ?clone)"
    by (rule erase_removeMarked)
  then have e1: "removeJunk (erase ?nd) = Element e (map erase ?ks1)"
    using c1 by (simp add: erase_cloneNode)
  have sub1: "subseq (elementIds (DElement ?n e ?ks1)) (elementIds ?clone)"
    using subseq_removeMarked [of ?J ?clone] c1 by simp
  have d1: "distinct (elementIds (DElement ?n e ?ks1))"
    using sub1 dc by (rule subseq_distinct)
  have f1: "set (elementIds (DElement ?n e ?ks1)) \<inter> set (elementIds ?doc) = {}"
    using subseq_subset [OF sub1] fresh by blast
  from rounds_result [OF d1 f1, of blockTags] obtain ks2 where
    r2: "foldl (\<lambda>(d, c) tag.
                  foldl (\<lambda>(d, c) e.
                           if tag = ''br'' then (replaceElement e d, replaceElement e c)
                           else (surroundElement e d, surroundElement e c))
                    (d, c) (selectAll (hasTag tag) c))
           (?doc, DElement ?n e ?ks1) blockTags = (?doc, DElement ?n e ks2)" and
    e2: "map erase ks2 = spaceBlocks (map erase ?ks1)"
    unfolding spaceBlocks_def by blast
  have pure: "getTextFromElement (erase ?nd) =
      trim (replaceRuns isSpace (replaceRuns isLineBreakOrTab
        (concat (map textContent (spaceBlocks (map erase ?ks1))))))"
  proof -
    have "getTextFromElement (Element e (map erase ks)) =
        (case removeJunk (Element e (map erase ks)) of
           Text s \<Rightarrow> []
         | Element e' ks' \<Rightarrow>
             trim (replaceRuns isSpace (replaceRuns isLineBreakOrTab
               (concat (map textContent (spaceBlocks ks'))))))"
      using True
      by (simp add: Let_def del: removeJunk.simps replaceRuns.simps split: node.split)
    moreover have "removeJunk (Element e (map erase ks)) = Element e (map erase ?ks1)"
      using e1 by simp
    ultimately show ?thesis by (simp only: erase.simps node.case)
  qed
  have imp: "getTextFromElementIn s el =
      (trim (replaceRuns isSpace (replaceRuns isLineBreakOrTab
         (textContent (erase (DElement ?n e ks2))))),
       \<lparr>document = ?doc, nextId = ?n + length (elements ?clone)\<rparr>)"
    using True
    by (simp only: getTextFromElementIn_def assms(1) option.case dnode.case if_False Let_def
          j1 j2 c1 r2 prod.case simp_thms)
  have st: "\<lparr>document = ?doc, nextId = ?n + length (elements ?clone)\<rparr> =
      s\<lparr>nextId := ?n + length (elements ?clone)\<rparr>"
    by simp
  have tx: "textContent (erase (DElement ?n e ks2)) =
      concat (map textContent (spaceBlocks (map erase ?ks1)))"
  proof -
    have "textContent (erase (DElement ?n e ks2)) = concat (map textContent (map erase ks2))"
      by simp
    then show ?thesis by (simp only: e2)
  qed
  from imp pure st tx have
    "getTextFromElementIn s el =
       (getTextFromElement (erase ?nd), s\<lparr>nextId := ?n + length (elements ?clone)\<rparr>)"
    by (simp only:)
  then show ?thesis by (intro exI [of _ "?n + length (elements ?clone)"]) simp
qed

lemma getTextFromElementIn_refines:
  assumes "findElement el (document s) = Some nd"
    and "\<forall>i \<in> set (elementIds (document s)). i < nextId s"
  shows "\<exists>n \<ge> nextId s.
           getTextFromElementIn s el = (getTextFromElement (erase nd), s\<lparr>nextId := n\<rparr>)"
proof -
  from findElement_Some [OF assms(1)] obtain e ks where nd: "nd = DElement el e ks"
    by blast
  with assms(1) have "findElement el (document s) = Some (DElement el e ks)" by simp
  from getTextFromElementIn_element [OF this assms(2)] nd show ?thesis by simp
qed


lemma find_by_key:
  "distinct (map f xs) \<Longrightarrow> x \<in> set xs \<Longrightarrow> find (\<lambda>y. f y = f x) xs = Some x"
  by (induction xs) (auto simp: image_iff)

lemma findElement_member:
  assumes "distinct (elementIds doc)" and "dk \<in> set (elements doc)"
  shows "findElement (identity dk) doc = Some dk"
proof -
  have "find (hasId (identity dk)) (elements doc) =
      find (\<lambda>k. identity k = identity dk) (elements doc)"
  proof (rule find_cong [OF refl])
    fix k assume "k \<in> set (elements doc)"
    then obtain i e ks where "k = DElement i e ks"
      by (auto dest: elements_are_elements)
    then show "hasId (identity dk) k = (identity k = identity dk)" by simp
  qed
  also have "\<dots> = Some dk"
    using assms by (intro find_by_key) (simp_all add: elementIds_def)
  finally show ?thesis by (simp add: findElement_def)
qed

lemma elements_trans:
  "root \<in> set (elements doc) \<Longrightarrow> set (elements root) \<subseteq> set (elements doc)"
proof (induction doc)
  case (DText s)
  then show ?case by simp
next
  case (DElement i e ks)
  show ?case
  proof (cases "root = DElement i e ks")
    case True
    then show ?thesis by simp
  next
    case False
    with DElement.prems obtain k where "k \<in> set ks" and "root \<in> set (elements k)" by auto
    with DElement.IH show ?thesis by auto
  qed
qed

lemma dnodeAt_member:
  "dnodeAt root p = Some (DElement i e ks) \<Longrightarrow> DElement i e ks \<in> set (elements root)"
proof (induction p arbitrary: root)
  case Nil
  then show ?case by simp
next
  case (Cons a p)
  then obtain j e' ks' where root: "root = DElement j e' ks'" and a: "a < length ks'"
    and at: "dnodeAt (ks' ! a) p = Some (DElement i e ks)"
    by (cases root) (auto split: if_splits)
  from Cons.IH [OF at] have "DElement i e ks \<in> set (elements (ks' ! a))" .
  moreover have "ks' ! a \<in> set ks'" using a by simp
  ultimately show ?case using root by auto
qed

lemma nodeAt_erase: "nodeAt (erase d) p = map_option erase (dnodeAt d p)"
proof (induction p arbitrary: d)
  case Nil
  show ?case by simp
next
  case (Cons a p)
  then show ?case by (cases d) simp_all
qed

lemma elementNodeAt_erase:
  "elementNodeAt (erase d) p =
     (case dnodeAt d p of Some (DElement i e ks) \<Rightarrow> Some (erase (DElement i e ks)) | _ \<Rightarrow> None)"
  by (simp add: elementNodeAt_def nodeAt_erase split: option.splits dnode.splits)

text \<open>A reference and a node are related when the reference leads to an element of the
  document whose tree is the node.\<close>

lemma path_related:
  assumes "distinct (elementIds doc)" and "root \<in> set (elements doc)"
  shows "(identityAt root p = None \<and> elementNodeAt (erase root) p = None) \<or>
         (\<exists>dk. identityAt root p = Some (identity dk) \<and> findElement (identity dk) doc = Some dk \<and>
               elementNodeAt (erase root) p = Some (erase dk))"
proof (cases "dnodeAt root p")
  case None
  then show ?thesis by (simp add: identityAt_def elementNodeAt_erase)
next
  case (Some dk)
  show ?thesis
  proof (cases dk)
    case (DText t)
    with Some show ?thesis by (simp add: identityAt_def elementNodeAt_erase)
  next
    case (DElement i e ks)
    with Some have "dk \<in> set (elements root)" using dnodeAt_member by simp
    with elements_trans [OF assms(2)] have "dk \<in> set (elements doc)" by blast
    from findElement_member [OF assms(1) this] have f: "findElement (identity dk) doc = Some dk" .
    have "identityAt root p = Some (identity dk)"
      using Some DElement by (simp add: identityAt_def)
    moreover have "elementNodeAt (erase root) p = Some (erase dk)"
      using Some DElement by (simp add: elementNodeAt_erase)
    ultimately show ?thesis using f by blast
  qed
qed

lemma items_related:
  assumes "distinct (elementIds doc)" and "root \<in> set (elements doc)"
  shows "list_all2 (\<lambda>i nd. \<exists>dk. findElement i doc = Some dk \<and> erase dk = nd)
           (List.map_filter (identityAt root) ps)
           (List.map_filter (elementNodeAt (erase root)) ps)"
proof (induction ps)
  case Nil
  show ?case by (simp add: List.map_filter_simps)
next
  case (Cons p ps)
  from path_related [OF assms, of p] Cons show ?case
    by (auto simp: List.map_filter_simps)
qed


lemma wellFormed_grow:
  "wellFormed s \<Longrightarrow> nextId s \<le> n \<Longrightarrow> wellFormed (s\<lparr>nextId := n\<rparr>)"
  by (auto simp: wellFormed_def list_all_iff)

lemma fieldTargetIn_related:
  assumes "distinct (elementIds (document s))"
    and "findElement item (document s) = Some dk"
  shows "(\<exists>err. fieldTargetIn engine s item f = Inl err \<and>
                fieldTarget engine (erase dk) f = Inl err) \<or>
         (fieldTargetIn engine s item f = Inr None \<and> fieldTarget engine (erase dk) f = Inr None) \<or>
         (\<exists>d'. fieldTargetIn engine s item f = Inr (Some (identity d')) \<and>
               findElement (identity d') (document s) = Some d' \<and>
               fieldTarget engine (erase dk) f = Inr (Some (erase d')))"
proof -
  from findElement_Some [OF assms(2)] obtain e ks where
    dk: "dk = DElement item e ks" and mem: "dk \<in> set (elements (document s))"
    by blast
  show ?thesis
  proof (cases "relativeSelector f = ''_ROOT_''")
    case True
    then have "fieldTargetIn engine s item f = Inr (Some (identity dk))"
      and "fieldTarget engine (erase dk) f = Inr (Some (erase dk))"
      using dk by (simp_all add: fieldTargetIn_def fieldTarget_def)
    moreover have "findElement (identity dk) (document s) = Some dk"
      using assms(2) dk by simp
    ultimately show ?thesis by blast
  next
    case False
    show ?thesis
    proof (cases "firstMatch engine (erase dk) (relativeSelector f)")
      case (Inl err)
      with False assms(2) show ?thesis
        by (simp add: fieldTargetIn_def fieldTarget_def)
    next
      case (Inr found)
      show ?thesis
      proof (cases found)
        case None
        with Inr False assms(2) show ?thesis
          by (simp add: fieldTargetIn_def fieldTarget_def)
      next
        case (Some p)
        have a: "fieldTargetIn engine s item f = Inr (identityAt dk p)"
          using Some Inr False assms(2) by (simp add: fieldTargetIn_def)
        have b: "fieldTarget engine (erase dk) f = Inr (elementNodeAt (erase dk) p)"
          using Some Inr False by (simp add: fieldTarget_def)
        from path_related [OF assms(1) mem, of p] a b show ?thesis by auto
      qed
    qed
  qed
qed

lemma cellValueIn_Some:
  assumes "\<forall>i \<in> set (elementIds (document s)). i < nextId s"
    and "findElement el (document s) = Some d"
  shows "\<exists>n \<ge> nextId s.
           cellValueIn s ty (Some el) = (cellValue ty (Some (erase d)), s\<lparr>nextId := n\<rparr>)"
proof (cases "ty = IMAGE \<and> isImageElement (erase d) \<or> ty = LINK \<and> isAnchorElement (erase d)")
  case True
  then have "cellValueIn s ty (Some el) = (cellValue ty (Some (erase d)), s\<lparr>nextId := nextId s\<rparr>)"
    using assms(2) by (auto simp: cellValueIn_def cellValue_def)
  then show ?thesis by blast
next
  case False
  then have "cellValueIn s ty (Some el) = getTextFromElementIn s el"
    and "cellValue ty (Some (erase d)) = getTextFromElement (erase d)"
    using assms(2) by (auto simp: cellValueIn_def cellValue_def)
  with getTextFromElementIn_refines [OF assms(2,1)] show ?thesis by simp
qed

lemma extractRowIn_refines:
  assumes "wellFormed s" and "findElement item (document s) = Some dk"
  shows "\<exists>n \<ge> nextId s.
           extractRowIn engine s item fs row =
             (extractRow engine (erase dk) fs row, s\<lparr>nextId := n\<rparr>)"
  using assms
proof (induction fs arbitrary: s row)
  case Nil
  have "extractRowIn engine s item [] row = (extractRow engine (erase dk) [] row, s\<lparr>nextId := nextId s\<rparr>)"
    by simp
  then show ?case by blast
next
  case (Cons f fs)
  have dist: "distinct (elementIds (document s))"
    and low: "\<forall>i \<in> set (elementIds (document s)). i < nextId s"
    using Cons.prems(1) by (simp_all add: wellFormed_def list_all_iff)
  have go: "\<exists>n \<ge> nextId s.
      extractRowIn engine s item (f # fs) row =
        (extractRow engine (erase dk) (f # fs) row, s\<lparr>nextId := n\<rparr>)"
    if t: "fieldTargetIn engine s item f = Inr t" and t': "fieldTarget engine (erase dk) f = Inr t'"
      and c: "cellValueIn s (fieldType f) t = (cellValue (fieldType f) t', s\<lparr>nextId := n1\<rparr>)"
      and n1: "nextId s \<le> n1" for t t' n1
  proof -
    let ?s1 = "s\<lparr>nextId := n1\<rparr>"
    have wf1: "wellFormed ?s1" using Cons.prems(1) n1 by (rule wellFormed_grow)
    have f1: "findElement item (document ?s1) = Some dk" using Cons.prems(2) by simp
    from Cons.IH [OF wf1 f1, of "setProp (fieldId f) (cellValue (fieldType f) t') row"]
    obtain n2 where n2: "nextId ?s1 \<le> n2" and
      r: "extractRowIn engine ?s1 item fs (setProp (fieldId f) (cellValue (fieldType f) t') row) =
            (extractRow engine (erase dk) fs (setProp (fieldId f) (cellValue (fieldType f) t') row),
             ?s1\<lparr>nextId := n2\<rparr>)"
      by blast
    have "extractRowIn engine s item (f # fs) row =
        (extractRow engine (erase dk) (f # fs) row, s\<lparr>nextId := n2\<rparr>)"
      using t t' c r by simp
    moreover have "nextId s \<le> n2" using n1 n2 by simp
    ultimately show ?thesis by blast
  qed
  from fieldTargetIn_related [OF dist Cons.prems(2), of engine f]
  consider err where "fieldTargetIn engine s item f = Inl err"
      "fieldTarget engine (erase dk) f = Inl err"
    | "fieldTargetIn engine s item f = Inr None" "fieldTarget engine (erase dk) f = Inr None"
    | d' where "fieldTargetIn engine s item f = Inr (Some (identity d'))"
      "findElement (identity d') (document s) = Some d'"
      "fieldTarget engine (erase dk) f = Inr (Some (erase d'))"
    by blast
  then show ?case
  proof cases
    case 1
    then have "extractRowIn engine s item (f # fs) row =
        (extractRow engine (erase dk) (f # fs) row, s\<lparr>nextId := nextId s\<rparr>)"
      by simp
    then show ?thesis by blast
  next
    case 2
    have "cellValueIn s (fieldType f) None = (cellValue (fieldType f) None, s\<lparr>nextId := nextId s\<rparr>)"
      by (simp add: cellValueIn_def cellValue_def)
    from go [OF 2 this] show ?thesis by simp
  next
    case 3
    from cellValueIn_Some [OF low 3(2), of "fieldType f"] obtain n1 where
      "nextId s \<le> n1" and
      "cellValueIn s (fieldType f) (Some (identity d')) =
         (cellValue (fieldType f) (Some (erase d')), s\<lparr>nextId := n1\<rparr>)"
      by blast
    from go [OF 3(1,3) this(2,1)] show ?thesis .
  qed
qed

lemma extractRowsIn_refines:
  assumes "list_all2 (\<lambda>i nd. \<exists>dk. findElement i doc = Some dk \<and> erase dk = nd) items nodes"
    and "wellFormed s" and "document s = doc"
  shows "\<exists>n \<ge> nextId s.
           extractRowsIn engine s index items fs =
             (extractRows engine index nodes fs, s\<lparr>nextId := n\<rparr>)"
  using assms
proof (induction items nodes arbitrary: s index rule: list_all2_induct)
  case Nil
  have "extractRowsIn engine s index [] fs = (extractRows engine index [] fs, s\<lparr>nextId := nextId s\<rparr>)"
    by simp
  then show ?case by blast
next
  case (Cons item items nd nodes)
  from Cons.hyps(1) Cons.prems(2) obtain dk where
    dk: "findElement item (document s) = Some dk" and nd: "erase dk = nd"
    by blast
  let ?row0 = "[(''id'', Str (''row-'' @ showNat index))]"
  from extractRowIn_refines [OF Cons.prems(1) dk, of engine fs ?row0] obtain n1 where
    n1: "nextId s \<le> n1" and
    r1: "extractRowIn engine s item fs ?row0 =
           (extractRow engine nd fs ?row0, s\<lparr>nextId := n1\<rparr>)"
    using nd by blast
  let ?s1 = "s\<lparr>nextId := n1\<rparr>"
  have wf1: "wellFormed ?s1" using Cons.prems(1) n1 by (rule wellFormed_grow)
  have d1: "document ?s1 = doc" using Cons.prems(2) by simp
  from Cons.IH [OF wf1 d1, of "Suc index"] obtain n2 where
    n2: "nextId ?s1 \<le> n2" and
    r2: "extractRowsIn engine ?s1 (Suc index) items fs =
           (extractRows engine (Suc index) nodes fs, ?s1\<lparr>nextId := n2\<rparr>)"
    by blast
  show ?case
  proof (cases "extractRow engine nd fs ?row0")
    case (Inl err)
    with r1 have "extractRowsIn engine s index (item # items) fs =
        (extractRows engine index (nd # nodes) fs, s\<lparr>nextId := n1\<rparr>)"
      by simp
    with n1 show ?thesis by blast
  next
    case (Inr row)
    with r1 r2 have "extractRowsIn engine s index (item # items) fs =
        (extractRows engine index (nd # nodes) fs, s\<lparr>nextId := n2\<rparr>)"
      by (cases "extractRows engine (Suc index) nodes fs") simp_all
    moreover have "nextId s \<le> n2" using n1 n2 by simp
    ultimately show ?thesis by blast
  qed
qed

lemma extractDataFromListIn_refines:
  assumes "wellFormed s" and "findElement rootContainer (document s) = Some root"
  shows "\<exists>n \<ge> nextId s.
           extractDataFromListIn engine s rootContainer sel fs =
             (extractDataFromList engine (erase root) sel fs, s\<lparr>nextId := n\<rparr>)"
proof -
  have dist: "distinct (elementIds (document s))"
    using assms(1) by (simp add: wellFormed_def)
  have mem: "root \<in> set (elements (document s))"
    using findElement_Some [OF assms(2)] by blast
  note rel = items_related [OF dist mem]
  have same: "\<exists>n \<ge> nextId s. (x, s) = (x, s\<lparr>nextId := n\<rparr>)" for x :: "error + ScrapedRow list"
    by (intro exI [of _ "nextId s"]) simp
  show ?thesis
  proof (cases "listItems engine (erase root) sel")
    case (Inl err)
    then have "listItemsIn engine s rootContainer sel = Inl err"
      using assms(2)
      by (auto simp: listItemsIn_def listItems_def split: sum.splits if_splits)
    with Inl same [of "Inl err"] show ?thesis
      by (simp add: extractDataFromListIn_def extractDataFromList_def)
  next
    case (Inr nodes)
    then obtain ps where
      nodes: "nodes = List.map_filter (elementNodeAt (erase root)) ps" and
      items: "listItemsIn engine s rootContainer sel = Inr (List.map_filter (identityAt root) ps)"
      using assms(2)
      by (auto simp: listItemsIn_def listItems_def split: sum.splits if_splits)
    from extractRowsIn_refines [OF rel assms(1) refl, of engine 0 ps fs] nodes items Inr
    show ?thesis
      by (simp add: extractDataFromListIn_def extractDataFromList_def)
  qed
qed


text \<open>
  Claim C9. Take a document whose elements have distinct, used numbers, and call
  \<open>extractDataFromList\<close> twice in a row with the same container, item selector and field
  list, the second call on the state that the first call left. Then both calls leave the
  document as it was, although \<open>getTextFromElement\<close> changes a tree in place: what it
  changes is the clone. The two calls give the same result: when they give rows, as many
  rows, with the same row ids in the same order, and every row with the same value under
  every key. When the container is an element of the document, that result is the result of
  the extractor on the tree of the container, which does not depend on the numbers. The
  selector engine is any function of the tree and the selector text.
\<close>

theorem extraction_repeatable:
  assumes "wellFormed s"
    and "extractDataFromListIn engine s rootContainer sel fs = (first, s1)"
    and "extractDataFromListIn engine s1 rootContainer sel fs = (second, s2)"
  shows "document s1 = document s \<and> document s2 = document s \<and> wellFormed s1 \<and>
         second = first \<and>
         (\<forall>rows1 rows2. first = Inr rows1 \<and> second = Inr rows2 \<longrightarrow>
            length rows1 = length rows2 \<and>
            map (\<lambda>row. getProp row ''id'') rows1 = map (\<lambda>row. getProp row ''id'') rows2 \<and>
            (\<forall>i < length rows1. \<forall>k. getProp (rows1 ! i) k = getProp (rows2 ! i) k)) \<and>
         (\<forall>root. findElement rootContainer (document s) = Some root \<longrightarrow>
            first = extractDataFromList engine (erase root) sel fs)"
proof (cases "findElement rootContainer (document s)")
  case None
  then have "extractDataFromListIn engine s rootContainer sel fs = (Inr [], s)"
    by (simp add: extractDataFromListIn_def listItemsIn_def)
  with assms(2) have 1: "first = Inr []" "s1 = s" by simp_all
  with None assms(3) have "extractDataFromListIn engine s rootContainer sel fs = (second, s2)"
    by simp
  with assms(2) have "second = first" "s2 = s1" by simp_all
  with 1 None assms(1) show ?thesis by simp
next
  case (Some root)
  from extractDataFromListIn_refines [OF assms(1) Some, of engine sel fs] assms(2)
  obtain n1 where n1: "nextId s \<le> n1" and
    f: "first = extractDataFromList engine (erase root) sel fs" and s1: "s1 = s\<lparr>nextId := n1\<rparr>"
    by auto
  have wf1: "wellFormed s1" using assms(1) n1 s1 by (simp add: wellFormed_grow)
  have r1: "findElement rootContainer (document s1) = Some root" using Some s1 by simp
  from extractDataFromListIn_refines [OF wf1 r1, of engine sel fs] assms(3)
  obtain n2 where
    g: "second = extractDataFromList engine (erase root) sel fs" and s2: "s2 = s1\<lparr>nextId := n2\<rparr>"
    by auto
  from f g s1 s2 wf1 Some show ?thesis by auto
qed


theorem extraction_repeatable_witness:
  "wellFormed sampleDom \<and>
   findElement 4 (document sampleDom) = Some (labelNode 4 sampleGrid) \<and>
   erase (labelNode 4 sampleGrid) = sampleGrid \<and>
   extractDataFromListIn compoundEngine sampleDom 4 ''div.property-card'' cardFields =
     (Inr [[(''id'', Str ''row-0''), (''card'', Str ''Villa $1 Details''), (''title'', Str ''Villa'')],
           [(''id'', Str ''row-1''), (''card'', Str ''Loft $2 Details''), (''title'', Str ''Loft'')],
           [(''id'', Str ''row-2''), (''card'', Str ''Condo $3 Details''), (''title'', Str ''Condo'')]],
      sampleDom\<lparr>nextId := 47\<rparr>) \<and>
   (\<exists>s2. extractDataFromListIn compoundEngine (sampleDom\<lparr>nextId := 47\<rparr>) 4
            ''div.property-card'' cardFields =
       (Inr [[(''id'', Str ''row-0''), (''card'', Str ''Villa $1 Details''), (''title'', Str ''Villa'')],
             [(''id'', Str ''row-1''), (''card'', Str ''Loft $2 Details''), (''title'', Str ''Loft'')],
             [(''id'', Str ''row-2''), (''card'', Str ''Condo $3 Details''), (''title'', Str ''Condo'')]],
        s2) \<and>
      document s2 = document sampleDom) \<and>
   extractDataFromList compoundEngine sampleGrid ''div.property-card'' cardFields =
     Inr [[(''id'', Str ''row-0''), (''card'', Str ''Villa $1 Details''), (''title'', Str ''Villa'')],
          [(''id'', Str ''row-1''), (''card'', Str ''Loft $2 Details''), (''title'', Str ''Loft'')],
          [(''id'', Str ''row-2''), (''card'', Str ''Condo $3 Details''), (''title'', Str ''Condo'')]]"
proof -
  let ?rows = "[[(''id'', Str ''row-0''), (''card'', Str ''Villa $1 Details''), (''title'', Str ''Villa'')],
           [(''id'', Str ''row-1''), (''card'', Str ''Loft $2 Details''), (''title'', Str ''Loft'')],
           [(''id'', Str ''row-2''), (''card'', Str ''Condo $3 Details''), (''title'', Str ''Condo'')]]"
  have wf: "wellFormed sampleDom"
    by code_simp
  have root: "findElement 4 (document sampleDom) = Some (labelNode 4 sampleGrid)"
    by code_simp
  have er: "erase (labelNode 4 sampleGrid) = sampleGrid"
    by code_simp
  have r1: "extractDataFromListIn compoundEngine sampleDom 4 ''div.property-card'' cardFields =
      (Inr ?rows, sampleDom\<lparr>nextId := 47\<rparr>)"
    by code_simp
  obtain second s2 where
    r2: "extractDataFromListIn compoundEngine (sampleDom\<lparr>nextId := 47\<rparr>) 4 ''div.property-card''
           cardFields = (second, s2)"
    by (cases "extractDataFromListIn compoundEngine (sampleDom\<lparr>nextId := 47\<rparr>) 4
                 ''div.property-card'' cardFields")
  from extraction_repeatable [OF wf r1 r2] root
  have "second = Inr ?rows" and "document s2 = document sampleDom"
    and "Inr ?rows = extractDataFromList compoundEngine (erase (labelNode 4 sampleGrid))
                       ''div.property-card'' cardFields"
    by blast+
  with wf root er r1 r2 show ?thesis by simp
qed

end
